theory Spec2Isabelle
  imports Main "HOL-Library.Extended_Nat"
begin

section \<open>The no-cycle rule: data model\<close>

text \<open>
  The rule of \<^verbatim>\<open>src/rules/no-cycle.ts\<close> is embedded as pure functions. The mutable
  module-level set \<^verbatim>\<open>traversed\<close> is passed in and returned; \<^verbatim>\<open>context.report\<close>
  becomes an optional report in the result.
\<close>

type_synonym path = string

text \<open>\<^verbatim>\<open>DeclarationMetadata['source']\<close>: the specifier literal and \<^verbatim>\<open>loc.start.line\<close>.\<close>

record source =
  svalue :: string
  line :: nat

record declaration_metadata =
  source :: source
  isOnlyImportingTypes :: bool
  dynamic :: bool

text \<open>
  An \<^verbatim>\<open>ExportMap\<close> as far as the rule reads it: its \<^verbatim>\<open>path\<close> and the ordered
  \<^verbatim>\<open>imports\<close> map from an imported path to the declarations importing it. The
  \<^verbatim>\<open>getter\<close> stored beside the declarations is the deferred lookup of that path
  (see \<open>getter\<close> below), so it is not stored in the entry.
\<close>

record export_map =
  path :: path
  "imports" :: "(path \<times> declaration_metadata list) list"

text \<open>
  The AST nodes the module visitor hands to \<^verbatim>\<open>checkSourceValue\<close> as \<^verbatim>\<open>importer\<close>,
  with the properties that tell a type-level declaration from a value-level one: the
  \<^verbatim>\<open>importKind\<close> of an import declaration and of its specifiers, and the
  \<^verbatim>\<open>exportKind\<close> of a re-export. A property that is absent is \<open>None\<close>.
\<close>

datatype specifier = Specifier (importKind: "string option")

datatype importer =
    ImportDeclaration (declImportKind: "string option") (specifiers: "specifier list")
  | ImportExpression
  | CallExpression (calleeName: "string option")
  | ExportNamedDeclaration (exportKind: "string option")
  | ExportAllDeclaration (exportAllKind: "string option")

text \<open>
  The rule context: the linted file (\<^verbatim>\<open>context.physicalFilename\<close>), the options, and
  the collaborators of \<^verbatim>\<open>../utils\<close> that the rule calls; they are parameters of the
  model. The option \<^verbatim>\<open>maxDepth\<close> is \<open>None\<close> when it is absent or the string for
  infinity. \<open>isExternalModule\<close> is the classifier applied to a specifier and its
  resolution, \<open>ExportMap_get\<close> is \<^verbatim>\<open>ExportMap.get\<close> on a specifier, and \<open>scc\<close> is the
  result of \<^verbatim>\<open>StronglyConnectedComponents.get\<close>, nothing when it is null.

  Modelled from the spec: \<open>ExportMap_for\<close> is the module graph cache, a finite table
  from canonical paths to module nodes, through which the getters of the import entries
  resolve.
\<close>

record rule_context =
  filename :: path
  maxDepthOption :: "nat option"
  ignoreExternal :: bool
  allowUnsafeDynamicCyclicDependency :: bool
  isExternalModule :: "string \<Rightarrow> bool"
  ExportMap_get :: "string \<Rightarrow> export_map option"
  ExportMap_for :: "(path \<times> export_map) list"
  scc :: "(path \<Rightarrow> nat option) option"

record traverser =
  mget :: "unit \<Rightarrow> export_map option"
  route :: "source list"

record report =
  node :: importer
  messageId :: string
  data_source :: string

section \<open>The rule\<close>

definition maxDepth :: "rule_context \<Rightarrow> enat" where
  "maxDepth ctx = (case maxDepthOption ctx of Some n \<Rightarrow> enat n | None \<Rightarrow> \<infinity>)"

definition ignoreModule :: "rule_context \<Rightarrow> string \<Rightarrow> bool" where
  "ignoreModule ctx name = (if ignoreExternal ctx then isExternalModule ctx name else False)"

text \<open>
  Modelled from the spec: the \<^verbatim>\<open>getter\<close> of an import entry (built by \<^verbatim>\<open>ExportMap\<close>,
  which is not among the sources) is the deferred lookup of the entry's path in the
  module graph cache; it yields the module node or nothing.
\<close>

definition getter :: "rule_context \<Rightarrow> path \<Rightarrow> unit \<Rightarrow> export_map option" where
  "getter ctx p = (\<lambda>_. map_of (ExportMap_for ctx) p)"

definition toTraverse :: "rule_context \<Rightarrow> declaration_metadata list \<Rightarrow> declaration_metadata list" where
  "toTraverse ctx declarations =
     filter (\<lambda>d. \<not> ignoreModule ctx (svalue (source d)) \<and> \<not> isOnlyImportingTypes d) declarations"

text \<open>
  The \<^verbatim>\<open>for\<close> loop of \<^verbatim>\<open>detectCycle\<close> over \<^verbatim>\<open>m.imports\<close>. The result is whether the
  function returned \<^verbatim>\<open>true\<close>, and the queue \<^verbatim>\<open>untraversed\<close> after the pushes.
\<close>

fun detectCycle_imports ::
  "rule_context \<Rightarrow> path set \<Rightarrow> source list \<Rightarrow> (path \<times> declaration_metadata list) list
     \<Rightarrow> traverser list \<Rightarrow> bool \<times> traverser list" where
  "detectCycle_imports ctx traversed rt [] untraversed = (False, untraversed)"
| "detectCycle_imports ctx traversed rt ((p, declarations) # rest) untraversed =
     (if p \<in> traversed then detectCycle_imports ctx traversed rt rest untraversed
      else if allowUnsafeDynamicCyclicDependency ctx
              \<and> (\<exists>d \<in> set (toTraverse ctx declarations). dynamic d)
        then (False, untraversed)
      else if p = filename ctx \<and> length (toTraverse ctx declarations) > 0
        then (True, untraversed)
      else if enat (length rt + 1) < maxDepth ctx
        then detectCycle_imports ctx traversed rt rest
               (untraversed @
                  map (\<lambda>d. \<lparr>mget = getter ctx p, route = rt @ [source d]\<rparr>)
                      (toTraverse ctx declarations))
      else detectCycle_imports ctx traversed rt rest untraversed)"

definition detectCycle ::
  "rule_context \<Rightarrow> path set \<Rightarrow> traverser list \<Rightarrow> traverser
     \<Rightarrow> bool \<times> path set \<times> traverser list" where
  "detectCycle ctx traversed untraversed t =
     (case mget t () of
        None \<Rightarrow> (False, traversed, untraversed)
      | Some m \<Rightarrow>
          if path m \<in> traversed then (False, traversed, untraversed)
          else (case detectCycle_imports ctx (insert (path m) traversed) (route t)
                       (imports m) untraversed of
                  (r, untraversed') \<Rightarrow> (r, insert (path m) traversed, untraversed')))"

text \<open>The module-level set \<^verbatim>\<open>traversed\<close> as the module creates it.\<close>

definition traversed_init :: "path set" where
  "traversed_init = {}"

text \<open>
  What the loop pushes: a traverser for a declaration kept by \<open>toTraverse\<close> on an entry
  whose path is neither traversed nor the linted file, one declaration deeper, and only
  below \<open>maxDepth\<close>.
\<close>

definition pushed ::
  "rule_context \<Rightarrow> path set \<Rightarrow> source list \<Rightarrow> (path \<times> declaration_metadata list) list
     \<Rightarrow> traverser \<Rightarrow> bool" where
  "pushed ctx traversed rt imps t =
     (\<exists>p ds d. (p, ds) \<in> set imps \<and> p \<notin> traversed \<and> p \<noteq> filename ctx
        \<and> d \<in> set (toTraverse ctx ds) \<and> enat (length rt + 1) < maxDepth ctx
        \<and> t = \<lparr>mget = getter ctx p, route = rt @ [source d]\<rparr>)"

text \<open>The paths that a run of the loop can still mark: the measure of its termination.\<close>

definition unseen :: "rule_context \<Rightarrow> path set \<Rightarrow> traverser list \<Rightarrow> path set" where
  "unseen ctx traversed untraversed =
     (path ` snd ` set (ExportMap_for ctx)
        \<union> {path m |m t. t \<in> set untraversed \<and> mget t () = Some m}) - traversed"

lemma pushed_Cons: "pushed ctx tr rt imps t \<Longrightarrow> pushed ctx tr rt (e # imps) t"
  unfolding pushed_def by fastforce

lemma pushedI:
  "(p, ds) \<in> set imps \<Longrightarrow> p \<notin> tr \<Longrightarrow> p \<noteq> filename ctx \<Longrightarrow> d \<in> set (toTraverse ctx ds)
     \<Longrightarrow> enat (length rt + 1) < maxDepth ctx
     \<Longrightarrow> pushed ctx tr rt imps \<lparr>mget = getter ctx p, route = rt @ [source d]\<rparr>"
  unfolding pushed_def by (intro exI [of _ p] exI [of _ ds] exI [of _ d]) simp

lemma pushedE:
  assumes "pushed ctx tr rt imps t"
  obtains p ds d where "(p, ds) \<in> set imps" "p \<notin> tr" "p \<noteq> filename ctx"
    "d \<in> set (toTraverse ctx ds)" "enat (length rt + 1) < maxDepth ctx"
    "t = \<lparr>mget = getter ctx p, route = rt @ [source d]\<rparr>"
proof -
  from assms obtain p ds d where "(p, ds) \<in> set imps \<and> p \<notin> tr \<and> p \<noteq> filename ctx
        \<and> d \<in> set (toTraverse ctx ds) \<and> enat (length rt + 1) < maxDepth ctx
        \<and> t = \<lparr>mget = getter ctx p, route = rt @ [source d]\<rparr>"
    unfolding pushed_def by (elim exE) (rule that)
  then show ?thesis by (intro that [of p ds d]) simp_all
qed

lemma loop_pushes:
  "detectCycle_imports ctx tr rt imps q = (b, q')
     \<Longrightarrow> \<exists>ps. q' = q @ ps \<and> (\<forall>t \<in> set ps. pushed ctx tr rt imps t)"
proof (induction imps arbitrary: q)
  case Nil
  then show ?case by simp
next
  case (Cons e rest)
  obtain p ds where e: "e = (p, ds)" by (cases e)
  let ?new = "map (\<lambda>d. \<lparr>mget = getter ctx p, route = rt @ [source d]\<rparr>) (toTraverse ctx ds)"
  from Cons.prems consider
      (stop) "q' = q"
    | (skip) "detectCycle_imports ctx tr rt rest q = (b, q')"
    | (push) "p \<notin> tr" "\<not> (p = filename ctx \<and> toTraverse ctx ds \<noteq> [])"
        "enat (length rt + 1) < maxDepth ctx"
        "detectCycle_imports ctx tr rt rest (q @ ?new) = (b, q')"
    by (auto simp: e split: if_splits)
  then show ?case
  proof cases
    case stop
    then show ?thesis by simp
  next
    case skip
    from Cons.IH [OF skip] obtain ps where
      ps: "q' = q @ ps" "\<forall>t \<in> set ps. pushed ctx tr rt rest t" by blast
    from ps(2) have "\<forall>t \<in> set ps. pushed ctx tr rt (e # rest) t"
      by (blast intro: pushed_Cons)
    with ps(1) show ?thesis by blast
  next
    case push
    from Cons.IH [OF push(4)] obtain ps where
      ps: "q' = (q @ ?new) @ ps" "\<forall>t \<in> set ps. pushed ctx tr rt rest t" by blast
    from ps(2) have later: "\<forall>t \<in> set ps. pushed ctx tr rt (e # rest) t"
      by (blast intro: pushed_Cons)
    have new: "pushed ctx tr rt (e # rest) t" if "t \<in> set ?new" for t
    proof -
      from that obtain d where d: "d \<in> set (toTraverse ctx ds)"
        "t = \<lparr>mget = getter ctx p, route = rt @ [source d]\<rparr>" by auto
      from d(1) have "toTraverse ctx ds \<noteq> []" by auto
      with push(2) have "p \<noteq> filename ctx" by simp
      with d(1) push(1,3) show ?thesis unfolding e d(2) by (intro pushedI) simp_all
    qed
    have "\<forall>t \<in> set (?new @ ps). pushed ctx tr rt (e # rest) t"
      unfolding set_append ball_Un using new later by blast
    moreover have "q' = q @ (?new @ ps)" using ps(1) by simp
    ultimately show ?thesis by blast
  qed
qed

lemma unseen_finite: "finite (unseen ctx tr q)"
proof -
  have "{path m |m t. t \<in> set q \<and> mget t () = Some m}
          \<subseteq> (\<lambda>t. path (the (mget t ()))) ` set q"
    by force
  then have "finite {path m |m t. t \<in> set q \<and> mget t () = Some m}"
    by (rule finite_subset) simp
  then show ?thesis by (simp add: unseen_def)
qed

lemma unseen_skip: "unseen ctx tr q \<subseteq> unseen ctx tr (t # q)"
  by (auto simp: unseen_def)

lemma unseen_expand:
  assumes m: "mget t () = Some m" and fresh: "path m \<notin> tr"
    and loop: "detectCycle_imports ctx (insert (path m) tr) rt imps q = (b, q')"
  shows "unseen ctx (insert (path m) tr) q' \<subset> unseen ctx tr (t # q)"
proof -
  from loop_pushes [OF loop] obtain ps where
    ps: "q' = q @ ps" "\<forall>t \<in> set ps. pushed ctx (insert (path m) tr) rt imps t" by blast
  have cached: "path m' \<in> path ` snd ` set (ExportMap_for ctx)"
    if "t' \<in> set ps" "mget t' () = Some m'" for t' m'
  proof -
    from ps(2) that(1) have "pushed ctx (insert (path m) tr) rt imps t'" by blast
    then obtain p where "mget t' = getter ctx p" by (rule pushedE) simp
    with that(2) have "map_of (ExportMap_for ctx) p = Some m'" by (simp add: getter_def)
    then have "(p, m') \<in> set (ExportMap_for ctx)" by (rule map_of_SomeD)
    then show ?thesis by force
  qed
  have sub: "unseen ctx (insert (path m) tr) q' \<subseteq> unseen ctx tr (t # q)"
    using cached by (auto simp: unseen_def ps(1))
  have "path m \<in> unseen ctx tr (t # q)"
    using m fresh by (auto simp: unseen_def)
  moreover have "path m \<notin> unseen ctx (insert (path m) tr) q'"
    by (simp add: unseen_def)
  ultimately show ?thesis using sub by blast
qed

text \<open>
  The \<^verbatim>\<open>while\<close> loop of \<^verbatim>\<open>checkSourceValue\<close>: the front of the queue is shifted off
  and handed to \<^verbatim>\<open>detectCycle\<close>; the loop returns the traverser that closed a cycle.
\<close>

function bfs ::
  "rule_context \<Rightarrow> path set \<Rightarrow> traverser list \<Rightarrow> traverser option \<times> path set" where
  "bfs ctx traversed [] = (None, traversed)"
| "bfs ctx traversed (next # untraversed) =
     (let r = detectCycle ctx traversed untraversed next in
      if fst r then (Some next, fst (snd r))
      else bfs ctx (fst (snd r)) (snd (snd r)))"
  by pat_completeness auto
termination bfs
proof (relation "measures [\<lambda>(ctx, tr, q). card (unseen ctx tr q), \<lambda>(ctx, tr, q). length q]")
  show "wf (measures [\<lambda>(ctx, tr, q). card (unseen ctx tr q), \<lambda>(ctx, tr, q). length q])"
    by simp
next
  fix ctx :: rule_context and traversed :: "path set" and nxt :: traverser
    and untraversed :: "traverser list" and r
  assume r: "r = detectCycle ctx traversed untraversed nxt" and nf: "\<not> fst r"
  show "((ctx, fst (snd r), snd (snd r)), (ctx, traversed, nxt # untraversed))
          \<in> measures [\<lambda>(ctx, tr, q). card (unseen ctx tr q), \<lambda>(ctx, tr, q). length q]"
  proof (cases "\<exists>m. mget nxt () = Some m \<and> path m \<notin> traversed")
    case True
    then obtain m where m: "mget nxt () = Some m" "path m \<notin> traversed" by blast
    obtain b q' where loop:
      "detectCycle_imports ctx (insert (path m) traversed) (route nxt) (imports m) untraversed
         = (b, q')"
      by (cases "detectCycle_imports ctx (insert (path m) traversed) (route nxt) (imports m)
                   untraversed")
    from m loop have r': "r = (b, insert (path m) traversed, q')"
      by (simp add: r detectCycle_def)
    have "card (unseen ctx (insert (path m) traversed) q')
            < card (unseen ctx traversed (nxt # untraversed))"
      by (rule psubset_card_mono [OF unseen_finite unseen_expand [OF m loop]])
    then show ?thesis by (simp add: r')
  next
    case False
    then have r': "r = (False, traversed, untraversed)"
      by (auto simp: r detectCycle_def split: option.splits)
    have "card (unseen ctx traversed untraversed)
            \<le> card (unseen ctx traversed (nxt # untraversed))"
      by (rule card_mono [OF unseen_finite unseen_skip])
    then show ?thesis by (auto simp: r')
  qed
qed

text \<open>\<^verbatim>\<open>routeString\<close>: every source as \<^verbatim>\<open>value:line\<close>, joined by \<^verbatim>\<open>=>\<close>.\<close>

fun string_of_nat :: "nat \<Rightarrow> string" where
  "string_of_nat n =
     (if n < 10 then [''0123456789'' ! n]
      else string_of_nat (n div 10) @ [''0123456789'' ! (n mod 10)])"

fun join :: "string \<Rightarrow> string list \<Rightarrow> string" where
  "join sep [] = []"
| "join sep [x] = x"
| "join sep (x # y # ys) = x @ sep @ join sep (y # ys)"

definition routeString :: "source list \<Rightarrow> string" where
  "routeString rt = join ''=>'' (map (\<lambda>s. svalue s @ '':'' @ string_of_nat (line s)) rt)"

text \<open>The message template \<^verbatim>\<open>Dependency cycle {{source}}\<close> filled with the report's data.\<close>

definition message :: "report \<Rightarrow> string" where
  "message r = ''Dependency cycle '' @ data_source r"

text \<open>
  The search of \<^verbatim>\<open>checkSourceValue\<close>: the queue starts with the imported module and
  an empty route, and the \<^verbatim>\<open>while\<close> loop runs on it.
\<close>

definition findCycle ::
  "rule_context \<Rightarrow> path set \<Rightarrow> export_map \<Rightarrow> traverser option \<times> path set" where
  "findCycle ctx traversed imported =
     bfs ctx traversed [\<lparr>mget = (\<lambda>_. Some imported), route = []\<rparr>]"

text \<open>The argument of \<^verbatim>\<open>context.report\<close> for the traverser that closed the cycle.\<close>

definition cycleReport :: "importer \<Rightarrow> traverser \<Rightarrow> report" where
  "cycleReport imp next =
     \<lparr>node = imp, messageId = ''cycle'',
      data_source =
        (if length (route next) > 0 then ''via '' @ routeString (route next)
         else ''detected.'')\<rparr>"

text \<open>
  \<^verbatim>\<open>checkSourceValue(sourceNode, importer)\<close>, given \<^verbatim>\<open>sourceNode.value\<close>. Every
  \<^verbatim>\<open>return\<close> of the source is a branch; the result is the report, if any, and the set
  \<^verbatim>\<open>traversed\<close> afterwards. The function is written in two parts: \<open>searchCycle\<close> is
  its body from the call of \<^verbatim>\<open>ExportMap.get\<close> on, and \<open>checkSourceValue\<close> puts the
  three guards on the source node and the importer in front of it.
\<close>

definition searchCycle ::
  "rule_context \<Rightarrow> path set \<Rightarrow> string \<Rightarrow> importer \<Rightarrow> report option \<times> path set" where
  "searchCycle ctx traversed sourceValue imp =
     (case ExportMap_get ctx sourceValue of
        None \<Rightarrow> (None, traversed)
      | Some imported \<Rightarrow>
          if path imported = filename ctx then (None, traversed)
          else if (case scc ctx of
                     Some s \<Rightarrow> s (filename ctx) \<noteq> s (path imported)
                   | None \<Rightarrow> False)
            then (None, traversed)
          else (case findCycle ctx traversed imported of
                  (Some next, traversed') \<Rightarrow> (Some (cycleReport imp next), traversed')
                | (None, traversed') \<Rightarrow> (None, traversed')))"

definition checkSourceValue ::
  "rule_context \<Rightarrow> path set \<Rightarrow> string \<Rightarrow> importer \<Rightarrow> report option \<times> path set" where
  "checkSourceValue ctx traversed sourceValue imp =
     (if ignoreModule ctx sourceValue then (None, traversed)
      else if allowUnsafeDynamicCyclicDependency ctx
              \<and> (case imp of
                    ImportExpression \<Rightarrow> True
                  | CallExpression callee \<Rightarrow>
                      (case callee of Some n \<Rightarrow> n \<noteq> ''require'' | None \<Rightarrow> False)
                  | _ \<Rightarrow> False)
        then (None, traversed)
      else if (case imp of
                 ImportDeclaration kind specs \<Rightarrow>
                   kind = Some ''type'' \<or> list_all (\<lambda>s. importKind s = Some ''type'') specs
               | _ \<Rightarrow> False)
        then (None, traversed)
      else searchCycle ctx traversed sourceValue imp)"

text \<open>
  One file's analysis: the module visitor calls \<^verbatim>\<open>checkSourceValue\<close> on every source
  node in document order, and \<^verbatim>\<open>Program:exit\<close> clears \<^verbatim>\<open>traversed\<close>. For the file
  name \<^verbatim>\<open><text>\<close> the rule installs no visitor at all.
\<close>

fun visit ::
  "rule_context \<Rightarrow> path set \<Rightarrow> (string \<times> importer) list \<Rightarrow> report list \<times> path set" where
  "visit ctx traversed [] = ([], traversed)"
| "visit ctx traversed ((sourceValue, imp) # rest) =
     (case checkSourceValue ctx traversed sourceValue imp of
        (r, traversed') \<Rightarrow>
          (case visit ctx traversed' rest of
             (rs, traversed'') \<Rightarrow> ((case r of None \<Rightarrow> rs | Some x \<Rightarrow> x # rs), traversed'')))"

definition program_exit :: "path set \<Rightarrow> path set" where
  "program_exit traversed = {}"

definition lintFile ::
  "rule_context \<Rightarrow> path set \<Rightarrow> (string \<times> importer) list \<Rightarrow> report list \<times> path set" where
  "lintFile ctx traversed nodes =
     (if filename ctx = ''<text>'' then ([], traversed)
      else (case visit ctx traversed nodes of
              (rs, traversed') \<Rightarrow> (rs, program_exit traversed')))"

text \<open>
  Modelled from the spec: the host analyses the files of a run one after another, each
  with its own rule context, and every analysis ends with its end-of-file event before
  the next begins. The set \<^verbatim>\<open>traversed\<close> is the one module-level set throughout.
\<close>

fun lintRun ::
  "path set \<Rightarrow> (rule_context \<times> (string \<times> importer) list) list
     \<Rightarrow> report list list \<times> path set" where
  "lintRun traversed [] = ([], traversed)"
| "lintRun traversed ((ctx, nodes) # files) =
     (case lintFile ctx traversed nodes of
        (rs, traversed') \<Rightarrow>
          (case lintRun traversed' files of
             (rss, traversed'') \<Rightarrow> (rs # rss, traversed'')))"

section \<open>Routes of the module graph\<close>

text \<open>
  A module has a qualifying edge to a path when one of its import entries for that path
  keeps a declaration after the filter \<open>toTraverse\<close>. A module is free of dynamic
  imports when no kept declaration of any of its entries is dynamic.
\<close>

definition qualifying_edge :: "rule_context \<Rightarrow> export_map \<Rightarrow> path \<Rightarrow> bool" where
  "qualifying_edge ctx m p =
     list_ex (\<lambda>(p', ds). p' = p \<and> toTraverse ctx ds \<noteq> []) (imports m)"

definition dynamic_free :: "rule_context \<Rightarrow> export_map \<Rightarrow> bool" where
  "dynamic_free ctx m =
     list_all (\<lambda>(p, ds). list_all (\<lambda>d. \<not> dynamic d) (toTraverse ctx ds)) (imports m)"

definition unvisited :: "path set \<Rightarrow> export_map \<Rightarrow> bool" where
  "unvisited tr m = (path m \<notin> tr)"

definition usable :: "rule_context \<Rightarrow> path set \<Rightarrow> export_map \<Rightarrow> bool" where
  "usable ctx tr m =
     (path m \<notin> tr \<and> (allowUnsafeDynamicCyclicDependency ctx \<longrightarrow> dynamic_free ctx m))"

text \<open>
  \<open>route_hops ctx ok m k\<close>: from the module \<open>m\<close>, \<open>k\<close> qualifying edges through the
  cache lead to a module with a qualifying edge back to the linted file, and every
  module on the way satisfies \<open>ok\<close>. The route that a report renders for such a cycle
  has \<open>k\<close> entries: one for each edge between the imported module and the module that
  closes the cycle.
\<close>

fun route_hops :: "rule_context \<Rightarrow> (export_map \<Rightarrow> bool) \<Rightarrow> export_map \<Rightarrow> nat \<Rightarrow> bool" where
  "route_hops ctx ok m 0 = (ok m \<and> qualifying_edge ctx m (filename ctx))"
| "route_hops ctx ok m (Suc k) =
     (ok m \<and>
      list_ex (\<lambda>(p, ds). toTraverse ctx ds \<noteq> [] \<and>
                 (case map_of (ExportMap_for ctx) p of
                    None \<Rightarrow> False
                  | Some m' \<Rightarrow> route_hops ctx ok m' k))
        (imports m))"

text \<open>
  \<open>route_follows ctx ok m rt\<close>: the sources \<open>rt\<close> are, in order, the sources of qualifying
  declarations along a path of the graph that starts at \<open>m\<close>, goes through the cache, and
  ends at a module with a qualifying edge back to the linted file; every module on the
  path satisfies \<open>ok\<close>.
\<close>

fun route_follows ::
  "rule_context \<Rightarrow> (export_map \<Rightarrow> bool) \<Rightarrow> export_map \<Rightarrow> source list \<Rightarrow> bool" where
  "route_follows ctx ok m [] = (ok m \<and> qualifying_edge ctx m (filename ctx))"
| "route_follows ctx ok m (s # rt) =
     (ok m \<and>
      list_ex (\<lambda>(p, ds). list_ex (\<lambda>d. source d = s) (toTraverse ctx ds) \<and>
                 (case map_of (ExportMap_for ctx) p of
                    None \<Rightarrow> False
                  | Some m' \<Rightarrow> route_follows ctx ok m' rt))
        (imports m))"

text \<open>
  The module graph cache is well formed when the node stored for a path carries that
  path, as \<^verbatim>\<open>ExportMap.for\<close> builds it.
\<close>

definition cache_wf :: "rule_context \<Rightarrow> bool" where
  "cache_wf ctx = list_all (\<lambda>(p, m). path m = p) (ExportMap_for ctx)"

text \<open>
  The minimal qualifying route from a module has \<open>k\<close> hops when a route of \<open>k\<close> hops
  exists and none is shorter.
\<close>

definition minimal_route ::
  "rule_context \<Rightarrow> (export_map \<Rightarrow> bool) \<Rightarrow> export_map \<Rightarrow> nat \<Rightarrow> bool" where
  "minimal_route ctx ok m k =
     (route_hops ctx ok m k \<and> (\<forall>j < k. \<not> route_hops ctx ok m j))"


section \<open>Example module graphs\<close>

text \<open>
  Small graphs for the concrete scenarios. A specifier is the path it resolves to, no
  module is external, and \<open>ExportMap.get\<close> looks the specifier up in the cache.
\<close>

definition static_import :: "string \<Rightarrow> nat \<Rightarrow> declaration_metadata" where
  "static_import v l =
     \<lparr>source = \<lparr>svalue = v, line = l\<rparr>, isOnlyImportingTypes = False, dynamic = False\<rparr>"

definition dynamic_import :: "string \<Rightarrow> nat \<Rightarrow> declaration_metadata" where
  "dynamic_import v l =
     \<lparr>source = \<lparr>svalue = v, line = l\<rparr>, isOnlyImportingTypes = False, dynamic = True\<rparr>"

definition type_import :: "string \<Rightarrow> nat \<Rightarrow> declaration_metadata" where
  "type_import v l =
     \<lparr>source = \<lparr>svalue = v, line = l\<rparr>, isOnlyImportingTypes = True, dynamic = False\<rparr>"

definition module_node ::
  "path \<Rightarrow> (path \<times> declaration_metadata list) list \<Rightarrow> path \<times> export_map" where
  "module_node p imps = (p, \<lparr>path = p, imports = imps\<rparr>)"

definition graph_context ::
  "path \<Rightarrow> nat option \<Rightarrow> bool \<Rightarrow> (path \<Rightarrow> nat option) option \<Rightarrow> (path \<times> export_map) list
     \<Rightarrow> rule_context" where
  "graph_context file depth allowDynamic components graph =
     \<lparr>filename = file, maxDepthOption = depth, ignoreExternal = False,
      allowUnsafeDynamicCyclicDependency = allowDynamic, isExternalModule = (\<lambda>_. False),
      ExportMap_get = map_of graph, ExportMap_for = graph, scc = components\<rparr>"

definition one_component :: "(path \<Rightarrow> nat option) option" where
  "one_component = Some (\<lambda>_. Some 0)"

definition named_import :: importer where
  "named_import = ImportDeclaration (Some ''value'') [Specifier (Some ''value'')]"

definition graph_ab :: "(path \<times> export_map) list" where
  "graph_ab = [module_node ''a'' [(''b'', [static_import ''b'' 1])],
               module_node ''b'' [(''a'', [static_import ''a'' 3])]]"

definition graph_abc :: "(path \<times> export_map) list" where
  "graph_abc = [module_node ''a'' [(''b'', [static_import ''b'' 1])],
                module_node ''b'' [(''c'', [static_import ''c'' 2])],
                module_node ''c'' [(''a'', [static_import ''a'' 3])]]"

definition graph_a_b :: "(path \<times> export_map) list" where
  "graph_a_b = [module_node ''a'' [(''b'', [static_import ''b'' 1])],
                module_node ''b'' []]"

definition two_components :: "(path \<Rightarrow> nat option) option" where
  "two_components = Some (\<lambda>p. if p = ''a'' then Some 0 else Some 1)"

text \<open>
  Module \<open>b\<close> imports \<open>a\<close> statically and \<open>c\<close> dynamically, in either order.
\<close>

definition graph_dynamic_last :: "(path \<times> export_map) list" where
  "graph_dynamic_last =
     [module_node ''a'' [(''b'', [static_import ''b'' 1])],
      module_node ''b'' [(''a'', [static_import ''a'' 1]), (''c'', [dynamic_import ''c'' 2])],
      module_node ''c'' [(''a'', [dynamic_import ''a'' 1])]]"

definition graph_dynamic_first :: "(path \<times> export_map) list" where
  "graph_dynamic_first =
     [module_node ''a'' [(''c'', [static_import ''c'' 1]), (''b'', [static_import ''b'' 2])],
      module_node ''b'' [(''c'', [dynamic_import ''c'' 1]), (''a'', [static_import ''a'' 2])],
      module_node ''c'' [(''a'', [dynamic_import ''a'' 1])]]"

text \<open>
  The linted file \<open>a\<close> imports \<open>x\<close> and then \<open>y\<close>; both reach \<open>a\<close> again through
  \<open>z\<close>. In the second graph \<open>y\<close> has a longer way back as well, through \<open>w\<close> and \<open>v\<close>.
\<close>

definition graph_revisit :: "(path \<times> export_map) list" where
  "graph_revisit =
     [module_node ''a'' [(''x'', [static_import ''x'' 1]), (''y'', [static_import ''y'' 2])],
      module_node ''x'' [(''z'', [static_import ''z'' 1])],
      module_node ''y'' [(''z'', [static_import ''z'' 1])],
      module_node ''z'' [(''a'', [static_import ''a'' 1])]]"

definition graph_detour :: "(path \<times> export_map) list" where
  "graph_detour =
     [module_node ''a'' [(''x'', [static_import ''x'' 1]), (''y'', [static_import ''y'' 2])],
      module_node ''x'' [(''z'', [static_import ''z'' 1])],
      module_node ''y'' [(''z'', [static_import ''z'' 1]), (''w'', [static_import ''w'' 2])],
      module_node ''z'' [(''a'', [static_import ''a'' 1])],
      module_node ''w'' [(''v'', [static_import ''v'' 1])],
      module_node ''v'' [(''a'', [static_import ''a'' 1])]]"

text \<open>The node that a graph stores for a path.\<close>

definition node_of :: "(path \<times> export_map) list \<Rightarrow> path \<Rightarrow> export_map" where
  "node_of graph p = (case map_of graph p of Some m \<Rightarrow> m | None \<Rightarrow> \<lparr>path = p, imports = []\<rparr>)"

subsection \<open>Invariants of the queue\<close>

text \<open>
  The queue is levelled when its routes are sorted by length and differ by at most one
  (first in, first out); its modules are cached when each is the cache's node for its
  path and is not the linted file; it is promising when one of its traversers has a
  usable route to the linted file within the bound \<open>K\<close>.
\<close>

definition levelled :: "traverser list \<Rightarrow> bool" where
  "levelled q =
     (sorted (map (\<lambda>t. length (route t)) q)
        \<and> (\<forall>t \<in> set q. length (route t) \<le> Suc (length (route (hd q)))))"

definition cached :: "rule_context \<Rightarrow> traverser list \<Rightarrow> bool" where
  "cached ctx q =
     (\<forall>t \<in> set q. \<forall>m. mget t () = Some m
        \<longrightarrow> path m \<noteq> filename ctx \<and> map_of (ExportMap_for ctx) (path m) = Some m)"

definition promising :: "rule_context \<Rightarrow> path set \<Rightarrow> nat \<Rightarrow> traverser list \<Rightarrow> bool" where
  "promising ctx tr K q =
     (\<exists>t \<in> set q. \<exists>m k. mget t () = Some m \<and> route_hops ctx (usable ctx tr) m k
                           \<and> length (route t) + k \<le> K)"

text \<open>
  \<open>rooted ctx tr m0 j\<close>: the module \<open>m0\<close> starts a route of \<open>j\<close> hops whose later
  modules are not \<open>m0\<close> again.
\<close>

definition rooted :: "rule_context \<Rightarrow> path set \<Rightarrow> export_map \<Rightarrow> nat \<Rightarrow> bool" where
  "rooted ctx tr m0 j =
     (usable ctx tr m0 \<and>
      (case j of
         0 \<Rightarrow> qualifying_edge ctx m0 (filename ctx)
       | Suc j' \<Rightarrow> \<exists>p m'. qualifying_edge ctx m0 p \<and> map_of (ExportMap_for ctx) p = Some m'
                     \<and> route_hops ctx (usable ctx (insert (path m0) tr)) m' j'))"

text \<open>
  A traverser is justified when every route that follows the graph from its module on
  extends, with the traverser's own route in front, to a route that follows the graph
  from the imported module on.
\<close>

definition justified :: "rule_context \<Rightarrow> path set \<Rightarrow> export_map \<Rightarrow> traverser \<Rightarrow> bool" where
  "justified ctx tr0 m0 t =
     (\<forall>m rt. mget t () = Some m \<longrightarrow> route_follows ctx (unvisited tr0) m rt
              \<longrightarrow> route_follows ctx (unvisited tr0) m0 (route t @ rt))"

section \<open>Unfolding the definitions\<close>

lemmas graph_defs =
  static_import_def dynamic_import_def type_import_def module_node_def graph_context_def
  one_component_def named_import_def graph_ab_def graph_abc_def graph_a_b_def
  two_components_def graph_dynamic_last_def graph_dynamic_first_def graph_revisit_def
  graph_detour_def node_of_def

lemmas rule_defs =
  checkSourceValue_def searchCycle_def findCycle_def cycleReport_def detectCycle_def
  ignoreModule_def toTraverse_def maxDepth_def getter_def routeString_def Let_def

lemmas route_defs =
  qualifying_edge_def toTraverse_def ignoreModule_def unvisited_def usable_def
  dynamic_free_def cache_wf_def

section \<open>The loop over one module's imports\<close>

lemma loop_true:
  "detectCycle_imports ctx tr rt imps q = (True, q')
     \<Longrightarrow> filename ctx \<notin> tr \<and> (\<exists>ds. (filename ctx, ds) \<in> set imps \<and> toTraverse ctx ds \<noteq> [])"
proof (induction imps arbitrary: q)
  case Nil
  then show ?case by simp
next
  case (Cons e rest)
  obtain p ds where e: "e = (p, ds)" by (cases e)
  from Cons.prems consider
      (here) "p \<notin> tr" "p = filename ctx" "toTraverse ctx ds \<noteq> []"
    | (later) q1 where "detectCycle_imports ctx tr rt rest q1 = (True, q')"
    by (auto simp: e split: if_splits)
  then show ?case
  proof cases
    case here
    then show ?thesis by (auto simp: e)
  next
    case later
    from Cons.IH [OF later] show ?thesis by auto
  qed
qed

lemma loop_complete:
  assumes free: "allowUnsafeDynamicCyclicDependency ctx \<longrightarrow>
            (\<forall>(p, ds) \<in> set imps. \<forall>d \<in> set (toTraverse ctx ds). \<not> dynamic d)"
    and run: "detectCycle_imports ctx tr rt imps q = (False, q')"
    and edge: "(p, ds) \<in> set imps" "p \<notin> tr" "d \<in> set (toTraverse ctx ds)"
  shows "p \<noteq> filename ctx
         \<and> (enat (length rt + 1) < maxDepth ctx
              \<longrightarrow> \<lparr>mget = getter ctx p, route = rt @ [source d]\<rparr> \<in> set q')"
  using free run edge(1)
proof (induction imps arbitrary: q)
  case Nil
  then show ?case by simp
next
  case (Cons e rest)
  obtain p1 ds1 where e: "e = (p1, ds1)" by (cases e)
  let ?new = "map (\<lambda>d. \<lparr>mget = getter ctx p1, route = rt @ [source d]\<rparr>) (toTraverse ctx ds1)"
  from Cons.prems(1) have free1:
    "allowUnsafeDynamicCyclicDependency ctx \<longrightarrow> (\<forall>d \<in> set (toTraverse ctx ds1). \<not> dynamic d)"
    and free_rest: "allowUnsafeDynamicCyclicDependency ctx \<longrightarrow>
            (\<forall>(p, ds) \<in> set rest. \<forall>d \<in> set (toTraverse ctx ds). \<not> dynamic d)"
    by (auto simp: e)
  let ?q1 = "if p1 \<notin> tr \<and> enat (length rt + 1) < maxDepth ctx then q @ ?new else q"
  from Cons.prems(2) free1 have rest_run: "detectCycle_imports ctx tr rt rest ?q1 = (False, q')"
    and no_close: "p1 \<notin> tr \<longrightarrow> \<not> (p1 = filename ctx \<and> toTraverse ctx ds1 \<noteq> [])"
    by (auto simp: e split: if_splits)
  show ?case
  proof (cases "(p, ds) = e")
    case True
    then have same: "p1 = p" "ds1 = ds" by (simp_all add: e)
    from edge(3) have ne: "toTraverse ctx ds \<noteq> []" by auto
    from no_close edge(2) ne have "p \<noteq> filename ctx" by (simp add: same)
    moreover have "\<lparr>mget = getter ctx p, route = rt @ [source d]\<rparr> \<in> set q'"
      if deep: "enat (length rt + 1) < maxDepth ctx"
    proof -
      from loop_pushes [OF rest_run] obtain ps where "q' = ?q1 @ ps" by blast
      moreover have "\<lparr>mget = getter ctx p, route = rt @ [source d]\<rparr> \<in> set ?q1"
        using edge(2,3) deep by (simp add: same)
      ultimately show ?thesis by simp
    qed
    ultimately show ?thesis by blast
  next
    case False
    with Cons.prems(3) have "(p, ds) \<in> set rest" by simp
    from Cons.IH [OF free_rest rest_run this] show ?thesis .
  qed
qed

section \<open>Routes and the search\<close>

lemma route_hops_closes:
  "ok m \<Longrightarrow> qualifying_edge ctx m (filename ctx) \<Longrightarrow> route_hops ctx ok m 0"
  by simp

lemma route_hops_hop:
  assumes "ok m" and "qualifying_edge ctx m p" and "map_of (ExportMap_for ctx) p = Some m'"
    and "route_hops ctx ok m' k"
  shows "route_hops ctx ok m (Suc k)"
proof -
  from assms(2) obtain ds where "(p, ds) \<in> set (imports m)" "toTraverse ctx ds \<noteq> []"
    by (auto simp: qualifying_edge_def list_ex_iff)
  with assms(1,3,4) show ?thesis
    unfolding route_hops.simps list_ex_iff by (intro conjI bexI [of _ "(p, ds)"]) simp_all
qed

lemma route_hops_SucE:
  assumes "route_hops ctx ok m (Suc k)"
  obtains p m' where "ok m" "qualifying_edge ctx m p" "map_of (ExportMap_for ctx) p = Some m'"
    "route_hops ctx ok m' k"
proof -
  from assms have ok: "ok m" by simp
  from assms obtain p ds where e: "(p, ds) \<in> set (imports m)" "toTraverse ctx ds \<noteq> []"
    "case map_of (ExportMap_for ctx) p of None \<Rightarrow> False | Some m' \<Rightarrow> route_hops ctx ok m' k"
    unfolding route_hops.simps list_ex_iff by blast
  from e(3) obtain m' where m': "map_of (ExportMap_for ctx) p = Some m'" "route_hops ctx ok m' k"
    by (cases "map_of (ExportMap_for ctx) p") simp_all
  from e(1,2) have qe: "qualifying_edge ctx m p"
    unfolding qualifying_edge_def list_ex_iff by (intro bexI [of _ "(p, ds)"]) simp_all
  show ?thesis by (rule that [OF ok qe m'])
qed

lemma route_hops_induct [consumes 1, case_names closes hop]:
  assumes r: "route_hops ctx ok m k"
    and closes: "\<And>m. ok m \<Longrightarrow> qualifying_edge ctx m (filename ctx) \<Longrightarrow> P m 0"
    and hop: "\<And>m p m' k. ok m \<Longrightarrow> qualifying_edge ctx m p
                \<Longrightarrow> map_of (ExportMap_for ctx) p = Some m' \<Longrightarrow> route_hops ctx ok m' k
                \<Longrightarrow> P m' k \<Longrightarrow> P m (Suc k)"
  shows "P m k"
  using r
proof (induction k arbitrary: m)
  case 0
  then show ?case by (simp add: closes)
next
  case (Suc k)
  from Suc.prems obtain p m' where e: "ok m" "qualifying_edge ctx m p"
    "map_of (ExportMap_for ctx) p = Some m'" "route_hops ctx ok m' k"
    by (rule route_hops_SucE)
  from e Suc.IH [OF e(4)] show ?case by (rule hop)
qed

lemma route_hops_root: "route_hops ctx ok m k \<Longrightarrow> ok m"
  by (cases k) simp_all


lemma route_hops_mono:
  assumes "route_hops ctx ok m k" and imp: "\<And>m. ok m \<Longrightarrow> ok' m"
  shows "route_hops ctx ok' m k"
  using assms(1)
proof (induction rule: route_hops_induct)
  case (closes m)
  have "ok' m" using closes(1) by (rule imp)
  then show ?case using closes(2) by (rule route_hops_closes)
next
  case (hop m p m' k)
  have "ok' m" using hop.hyps(1) by (rule imp)
  then show ?case using hop.hyps(2,3) hop.IH by (rule route_hops_hop)
qed

lemma qualifying_edgeI:
  "(p, ds) \<in> set (imports m) \<Longrightarrow> d \<in> set (toTraverse ctx ds) \<Longrightarrow> qualifying_edge ctx m p"
  unfolding qualifying_edge_def list_ex_iff
  by (rule bexI [of _ "(p, ds)"]) auto

lemma qualifying_edgeE:
  assumes "qualifying_edge ctx m p"
  obtains ds d where "(p, ds) \<in> set (imports m)" "d \<in> set (toTraverse ctx ds)"
proof -
  from assms obtain ds where ds: "(p, ds) \<in> set (imports m)" "toTraverse ctx ds \<noteq> []"
    by (auto simp: qualifying_edge_def list_ex_iff)
  from ds(2) obtain d where "d \<in> set (toTraverse ctx ds)" by (cases "toTraverse ctx ds") auto
  with ds(1) show ?thesis by (rule that)
qed

lemma route_follows_hop:
  assumes "ok m" and "(p, ds) \<in> set (imports m)" and "d \<in> set (toTraverse ctx ds)"
    and "map_of (ExportMap_for ctx) p = Some m'" and "route_follows ctx ok m' rt"
  shows "route_follows ctx ok m (source d # rt)"
proof -
  from assms(3) have "list_ex (\<lambda>d'. source d' = source d) (toTraverse ctx ds)"
    unfolding list_ex_iff by blast
  with assms(1,2,4,5) show ?thesis
    unfolding route_follows.simps list_ex_iff [of _ "imports m"]
    by (intro conjI bexI [of _ "(p, ds)"]) simp_all
qed

lemma route_follows_hops: "route_follows ctx ok m rt \<Longrightarrow> route_hops ctx ok m (length rt)"
proof (induction rt arbitrary: m)
  case Nil
  then show ?case by simp
next
  case (Cons s rt)
  from Cons.prems have ok: "ok m" by simp
  from Cons.prems obtain p ds where e: "(p, ds) \<in> set (imports m)"
    "list_ex (\<lambda>d. source d = s) (toTraverse ctx ds)"
    "case map_of (ExportMap_for ctx) p of None \<Rightarrow> False
       | Some m' \<Rightarrow> route_follows ctx ok m' rt"
    unfolding route_follows.simps list_ex_iff [of _ "imports m"] by blast
  from e(3) obtain m' where m': "map_of (ExportMap_for ctx) p = Some m'"
    "route_follows ctx ok m' rt"
    by (cases "map_of (ExportMap_for ctx) p") simp_all
  from e(2) obtain d where "d \<in> set (toTraverse ctx ds)" unfolding list_ex_iff by blast
  with e(1) have "qualifying_edge ctx m p" by (rule qualifying_edgeI)
  with ok have "route_hops ctx ok m (Suc (length rt))"
    using m'(1) Cons.IH [OF m'(2)] by (rule route_hops_hop)
  then show ?case by simp
qed

subsection \<open>The visited set only grows\<close>

lemma detectCycle_traversed_mono: "tr \<subseteq> fst (snd (detectCycle ctx tr q t))"
  by (auto simp: detectCycle_def split: option.splits prod.splits)

lemma bfs_traversed_mono: "tr \<subseteq> snd (bfs ctx tr q)"
proof (induction ctx tr q rule: bfs.induct)
  case (1 ctx tr)
  show ?case by simp
next
  case (2 ctx tr nxt rest)
  let ?r = "detectCycle ctx tr rest nxt"
  have step: "tr \<subseteq> fst (snd ?r)" by (rule detectCycle_traversed_mono)
  show ?case
  proof (cases "fst ?r")
    case True
    with step show ?thesis by (simp add: Let_def)
  next
    case False
    from "2.IH" [OF refl False] step have "tr \<subseteq> snd (bfs ctx (fst (snd ?r)) (snd (snd ?r)))"
      by blast
    with False show ?thesis by (simp add: Let_def)
  qed
qed

subsection \<open>Every confirmed cycle is a route of the graph\<close>

lemma justified_start: "justified ctx tr0 m0 \<lparr>mget = (\<lambda>_. Some m0), route = []\<rparr>"
  by (simp add: justified_def)

lemma justified_push:
  assumes nxt: "justified ctx tr0 m0 nxt" "mget nxt () = Some m" "path m \<notin> tr0"
    and edge: "(p, ds) \<in> set (imports m)" "d \<in> set (toTraverse ctx ds)"
  shows "justified ctx tr0 m0 \<lparr>mget = getter ctx p, route = route nxt @ [source d]\<rparr>"
  unfolding justified_def
proof (intro allI impI)
  fix m' rt
  assume "mget \<lparr>mget = getter ctx p, route = route nxt @ [source d]\<rparr> () = Some m'"
    and rest: "route_follows ctx (unvisited tr0) m' rt"
  then have m': "map_of (ExportMap_for ctx) p = Some m'" by (simp add: getter_def)
  from nxt(3) have "unvisited tr0 m" by (simp add: unvisited_def)
  then have "route_follows ctx (unvisited tr0) m (source d # rt)"
    using edge m' rest by (rule route_follows_hop)
  with nxt(1,2) have "route_follows ctx (unvisited tr0) m0 (route nxt @ source d # rt)"
    unfolding justified_def by blast
  then show "route_follows ctx (unvisited tr0) m0
               (route \<lparr>mget = getter ctx p, route = route nxt @ [source d]\<rparr> @ rt)"
    by simp
qed

lemma bfs_sound:
  "bfs ctx tr q = (Some t, tr') \<Longrightarrow> tr0 \<subseteq> tr \<Longrightarrow> \<forall>t \<in> set q. justified ctx tr0 m0 t
     \<Longrightarrow> route_follows ctx (unvisited tr0) m0 (route t)"
proof (induction ctx tr q rule: bfs.induct)
  case (1 ctx tr)
  then show ?case by simp
next
  case (2 ctx tr nxt rest)
  let ?r = "detectCycle ctx tr rest nxt"
  show ?case
  proof (cases "\<exists>m. mget nxt () = Some m \<and> path m \<notin> tr")
    case False
    then have step: "?r = (False, tr, rest)"
      by (auto simp: detectCycle_def split: option.splits)
    then have nf: "\<not> fst ?r" by simp
    from "2.prems"(1) have run: "bfs ctx tr rest = (Some t, tr')" by (simp add: Let_def step)
    from "2.prems"(3) have inv: "\<forall>t \<in> set rest. justified ctx tr0 m0 t" by simp
    show ?thesis
      by (rule "2.IH" [OF refl nf, unfolded step fst_conv snd_conv, OF run "2.prems"(2) inv])
  next
    case True
    then obtain m where m: "mget nxt () = Some m" "path m \<notin> tr" by blast
    obtain b q' where loop:
      "detectCycle_imports ctx (insert (path m) tr) (route nxt) (imports m) rest = (b, q')"
      by (cases "detectCycle_imports ctx (insert (path m) tr) (route nxt) (imports m) rest")
    with m have step: "?r = (b, insert (path m) tr, q')" by (simp add: detectCycle_def)
    from "2.prems"(2) m(2) have fresh: "path m \<notin> tr0" by blast
    from "2.prems"(3) have jn: "justified ctx tr0 m0 nxt" by simp
    show ?thesis
    proof (cases b)
      case True
      with "2.prems"(1) have t: "t = nxt" by (simp add: Let_def step)
      from loop True have "detectCycle_imports ctx (insert (path m) tr) (route nxt) (imports m)
          rest = (True, q')" by simp
      from loop_true [OF this] obtain ds where
        "(filename ctx, ds) \<in> set (imports m)" "toTraverse ctx ds \<noteq> []" by blast
      then have "qualifying_edge ctx m (filename ctx)"
        by (auto simp: qualifying_edge_def list_ex_iff)
      with fresh have "route_follows ctx (unvisited tr0) m []"
        by (simp add: unvisited_def)
      with jn m(1) have "route_follows ctx (unvisited tr0) m0 (route nxt @ [])"
        unfolding justified_def by blast
      then show ?thesis by (simp add: t)
    next
      case False
      then have nf: "\<not> fst ?r" by (simp add: step)
      from False "2.prems"(1) have run: "bfs ctx (insert (path m) tr) q' = (Some t, tr')"
        by (simp add: Let_def step)
      from loop_pushes [OF loop] obtain ps where ps: "q' = rest @ ps"
        "\<forall>t \<in> set ps. pushed ctx (insert (path m) tr) (route nxt) (imports m) t"
        by blast
      have "justified ctx tr0 m0 t'" if "t' \<in> set ps" for t'
      proof -
        from ps(2) that have "pushed ctx (insert (path m) tr) (route nxt) (imports m) t'"
          by (rule bspec)
        then obtain p ds d where edge: "(p, ds) \<in> set (imports m)"
          "d \<in> set (toTraverse ctx ds)"
          and t': "t' = \<lparr>mget = getter ctx p, route = route nxt @ [source d]\<rparr>"
          by (rule pushedE)
        show ?thesis unfolding t' by (rule justified_push [OF jn m(1) fresh edge])
      qed
      with "2.prems"(3) have inv: "\<forall>t \<in> set q'. justified ctx tr0 m0 t"
        unfolding ps(1) set_append ball_Un by simp
      from "2.prems"(2) have sub: "tr0 \<subseteq> insert (path m) tr" by blast
      show ?thesis
        by (rule "2.IH" [OF refl nf, unfolded step fst_conv snd_conv, OF run sub inv])
    qed
  qed
qed



subsection \<open>A usable route within the depth is found\<close>

lemma cache_wfD: "cache_wf ctx \<Longrightarrow> map_of (ExportMap_for ctx) p = Some m \<Longrightarrow> path m = p"
  by (auto simp: cache_wf_def list_all_iff dest!: map_of_SomeD)

lemma cache_wf_node:
  "cache_wf ctx \<Longrightarrow> map_of (ExportMap_for ctx) p = Some m
     \<Longrightarrow> map_of (ExportMap_for ctx) (path m) = Some m"
  using cache_wfD [of ctx p m] by simp

lemma usable_insert:
  "usable ctx (insert p tr) m \<longleftrightarrow> usable ctx tr m \<and> path m \<noteq> p"
  by (auto simp: usable_def)

lemma same_node: "f x = Some (a::export_map) \<Longrightarrow> f x = Some b \<Longrightarrow> a = b"
  by simp

lemma reroot:
  assumes wf: "cache_wf ctx"
    and m0: "map_of (ExportMap_for ctx) (path m0) = Some m0"
    and r: "route_hops ctx (usable ctx tr) m k"
    and m: "map_of (ExportMap_for ctx) (path m) = Some m"
  shows "route_hops ctx (usable ctx (insert (path m0) tr)) m k
           \<or> (\<exists>j \<le> k. rooted ctx tr m0 j)"
  using r m
proof (induction rule: route_hops_induct)
  case (closes m)
  show ?case
  proof (cases "path m = path m0")
    case True
    have "m = m0" using closes.prems m0 unfolding True by (rule same_node)
    with closes.hyps have "rooted ctx tr m0 0" by (simp add: rooted_def)
    then show ?thesis by blast
  next
    case False
    with closes.hyps(1) have "usable ctx (insert (path m0) tr) m" by (simp add: usable_insert)
    then have "route_hops ctx (usable ctx (insert (path m0) tr)) m 0"
      using closes.hyps(2) by (rule route_hops_closes)
    then show ?thesis by blast
  qed
next
  case (hop m p m' k)
  have "map_of (ExportMap_for ctx) (path m') = Some m'"
    using wf hop.hyps(3) by (rule cache_wf_node)
  from hop.IH [OF this] show ?case
  proof
    assume rest: "route_hops ctx (usable ctx (insert (path m0) tr)) m' k"
    show ?thesis
    proof (cases "path m = path m0")
      case True
      have same: "m = m0" using hop.prems m0 unfolding True by (rule same_node)
      have "\<exists>p m'. qualifying_edge ctx m0 p \<and> map_of (ExportMap_for ctx) p = Some m'
                     \<and> route_hops ctx (usable ctx (insert (path m0) tr)) m' k"
        using hop.hyps(2,3) rest unfolding same by blast
      with hop.hyps(1) have "rooted ctx tr m0 (Suc k)"
        unfolding same by (simp add: rooted_def)
      then show ?thesis by blast
    next
      case False
      with hop.hyps(1) have "usable ctx (insert (path m0) tr) m" by (simp add: usable_insert)
      then have "route_hops ctx (usable ctx (insert (path m0) tr)) m (Suc k)"
        using hop.hyps(2,3) rest by (rule route_hops_hop)
      then show ?thesis by blast
    qed
  next
    assume "\<exists>j \<le> k. rooted ctx tr m0 j"
    then obtain j where "j \<le> k" "rooted ctx tr m0 j" by blast
    then have "j \<le> Suc k \<and> rooted ctx tr m0 j" by simp
    then show ?thesis by blast
  qed
qed

lemma levelled_tail: "levelled (t # q) \<Longrightarrow> levelled q"
proof -
  assume lev: "levelled (t # q)"
  show ?thesis
  proof (cases q)
    case Nil
    then show ?thesis by (simp add: levelled_def)
  next
    case (Cons u q')
    from lev have "length (route t) \<le> length (route u)"
      by (simp add: levelled_def Cons)
    with lev show ?thesis by (auto simp: levelled_def Cons)
  qed
qed

lemma levelled_front: "levelled (t # q) \<Longrightarrow> u \<in> set (t # q) \<Longrightarrow> length (route t) \<le> length (route u)"
  by (auto simp: levelled_def)

lemma levelled_push:
  assumes lev: "levelled (t # q)"
    and new: "\<forall>u \<in> set ps. length (route u) = Suc (length (route t))"
  shows "levelled (q @ ps)"
proof -
  let ?len = "\<lambda>t. length (route t)"
  from lev have lo: "\<forall>u \<in> set q. ?len t \<le> ?len u" and hi: "\<forall>u \<in> set q. ?len u \<le> Suc (?len t)"
    and sq: "sorted (map ?len q)"
    by (auto simp: levelled_def)
  have sp: "sorted (map ?len ps)"
    using new by (induction ps) auto
  have "sorted (map ?len (q @ ps))"
    using sq sp hi new by (auto simp: sorted_append)
  moreover have "?len u \<le> Suc (?len (hd (q @ ps)))" if "u \<in> set (q @ ps)" for u
  proof -
    from that have q_ps: "q @ ps \<noteq> []" by auto
    then have "hd (q @ ps) \<in> set (q @ ps)" by (rule hd_in_set)
    with lo new have "?len t \<le> ?len (hd (q @ ps))" by auto
    moreover from that hi new have "?len u \<le> Suc (?len t)" by auto
    ultimately show ?thesis by simp
  qed
  ultimately show ?thesis by (simp add: levelled_def)
qed

lemma dynamic_freeD:
  "dynamic_free ctx m \<Longrightarrow> (p, ds) \<in> set (imports m) \<Longrightarrow> d \<in> set (toTraverse ctx ds)
     \<Longrightarrow> \<not> dynamic d"
  unfolding dynamic_free_def list_all_iff by blast

lemma usable_free:
  assumes "usable ctx tr m"
  shows "allowUnsafeDynamicCyclicDependency ctx \<longrightarrow>
            (\<forall>(p, ds) \<in> set (imports m). \<forall>d \<in> set (toTraverse ctx ds). \<not> dynamic d)"
proof
  assume "allowUnsafeDynamicCyclicDependency ctx"
  with assms have "dynamic_free ctx m" by (simp add: usable_def)
  then show "\<forall>(p, ds) \<in> set (imports m). \<forall>d \<in> set (toTraverse ctx ds). \<not> dynamic d"
    by (blast dest: dynamic_freeD)
qed

lemma bfs_complete:
  "cache_wf ctx \<Longrightarrow> enat K < maxDepth ctx \<Longrightarrow> filename ctx \<notin> tr \<Longrightarrow> cached ctx q
     \<Longrightarrow> levelled q \<Longrightarrow> promising ctx tr K q
     \<Longrightarrow> \<exists>t tr'. bfs ctx tr q = (Some t, tr') \<and> length (route t) \<le> K"
proof (induction ctx tr q rule: bfs.induct)
  case (1 ctx tr)
  then show ?case by (simp add: promising_def)
next
  case (2 ctx tr nxt rest)
  note wf = "2.prems"(1) and depth = "2.prems"(2) and f = "2.prems"(3)
    and cached = "2.prems"(4) and lev = "2.prems"(5) and prom = "2.prems"(6)
  let ?r = "detectCycle ctx tr rest nxt"
  from prom obtain t m k where w: "t \<in> set (nxt # rest)" "mget t () = Some m"
    "route_hops ctx (usable ctx tr) m k" "length (route t) + k \<le> K"
    unfolding promising_def by blast
  from w(3) have m_ok: "usable ctx tr m" by (rule route_hops_root)
  from lev w(1) have front: "length (route nxt) \<le> length (route t)" by (rule levelled_front)
  from lev have lev_rest: "levelled rest" by (rule levelled_tail)
  from cached have cached_rest: "cached ctx rest" by (simp add: cached_def)
  from cached w(1,2) have m_node: "map_of (ExportMap_for ctx) (path m) = Some m"
    unfolding cached_def by blast
  show ?case
  proof (cases "\<exists>m0. mget nxt () = Some m0 \<and> path m0 \<notin> tr")
    case False
    then have step: "?r = (False, tr, rest)"
      by (auto simp: detectCycle_def split: option.splits)
    then have nf: "\<not> fst ?r" by simp
    have "t \<noteq> nxt"
    proof
      assume "t = nxt"
      with w(2) False have "path m \<in> tr" by simp
      with m_ok show False by (simp add: usable_def)
    qed
    with w have "promising ctx tr K rest" unfolding promising_def by auto
    from "2.IH" [OF refl nf, unfolded step fst_conv snd_conv, OF wf depth f cached_rest lev_rest this]
    show ?thesis by (simp add: Let_def step)
  next
    case True
    then obtain m0 where m0: "mget nxt () = Some m0" "path m0 \<notin> tr" by blast
    let ?tr' = "insert (path m0) tr"
    obtain b q' where loop:
      "detectCycle_imports ctx ?tr' (route nxt) (imports m0) rest = (b, q')"
      by (cases "detectCycle_imports ctx ?tr' (route nxt) (imports m0) rest")
    with m0 have step: "?r = (b, ?tr', q')" by (simp add: detectCycle_def)
    show ?thesis
    proof (cases b)
      case True
      then have "bfs ctx tr (nxt # rest) = (Some nxt, ?tr')" by (simp add: Let_def step)
      moreover from front w(4) have "length (route nxt) \<le> K" by simp
      ultimately show ?thesis by blast
    next
      case False
      then have nf: "\<not> fst ?r" by (simp add: step)
      from False loop have run: "detectCycle_imports ctx ?tr' (route nxt) (imports m0) rest
          = (False, q')" by simp
      from cached m0(1) have m0_f: "path m0 \<noteq> filename ctx"
        and m0_node: "map_of (ExportMap_for ctx) (path m0) = Some m0"
        unfolding cached_def by auto
      from f m0_f have f': "filename ctx \<notin> ?tr'" by simp
      from loop_pushes [OF loop] obtain ps where ps: "q' = rest @ ps"
        "\<forall>t \<in> set ps. pushed ctx ?tr' (route nxt) (imports m0) t" by blast
      have pushedD: "pushed ctx ?tr' (route nxt) (imports m0) u" if "u \<in> set ps" for u
        using ps(2) that by (rule bspec)
      have cached': "cached ctx q'"
        unfolding cached_def ps(1) set_append ball_Un
      proof
        show "\<forall>t \<in> set rest. \<forall>m. mget t () = Some m
          \<longrightarrow> path m \<noteq> filename ctx \<and> map_of (ExportMap_for ctx) (path m) = Some m"
          using cached_rest unfolding cached_def .
        show "\<forall>t \<in> set ps. \<forall>m. mget t () = Some m
          \<longrightarrow> path m \<noteq> filename ctx \<and> map_of (ExportMap_for ctx) (path m) = Some m"
        proof (intro ballI allI impI)
          fix u mu assume u: "u \<in> set ps" "mget u () = Some mu"
          from pushedD [OF u(1)] obtain p where p: "p \<noteq> filename ctx" "mget u = getter ctx p"
            by (rule pushedE) simp
          with u(2) have look: "map_of (ExportMap_for ctx) p = Some mu" by (simp add: getter_def)
          from cache_wfD [OF wf look] p(1) cache_wf_node [OF wf look]
          show "path mu \<noteq> filename ctx \<and> map_of (ExportMap_for ctx) (path mu) = Some mu"
            by simp
        qed
      qed
      have "\<forall>u \<in> set ps. length (route u) = Suc (length (route nxt))"
      proof
        fix u assume "u \<in> set ps"
        from pushedD [OF this] show "length (route u) = Suc (length (route nxt))"
          by (rule pushedE) simp
      qed
      with lev have lev': "levelled q'" unfolding ps(1) by (rule levelled_push)
      have prom': "promising ctx ?tr' K q'"
        using reroot [OF wf m0_node w(3) m_node]
      proof
        assume avoid: "route_hops ctx (usable ctx ?tr') m k"
        then have "usable ctx ?tr' m" by (rule route_hops_root)
        then have "path m \<noteq> path m0" by (simp add: usable_insert)
        with w(2) m0(1) have "t \<noteq> nxt" by auto
        with w(1) have "t \<in> set q'" by (simp add: ps(1))
        with w(2,4) avoid show ?thesis unfolding promising_def by blast
      next
        assume "\<exists>j \<le> k. rooted ctx tr m0 j"
        then obtain j where j: "j \<le> k" "rooted ctx tr m0 j" by blast
        from j(2) have ok0: "usable ctx tr m0" by (simp add: rooted_def)
        note free = usable_free [OF ok0]
        show ?thesis
        proof (cases j)
          case 0
          with j(2) have "qualifying_edge ctx m0 (filename ctx)" by (simp add: rooted_def)
          then obtain ds d where "(filename ctx, ds) \<in> set (imports m0)"
            "d \<in> set (toTraverse ctx ds)" by (rule qualifying_edgeE)
          from loop_complete [OF free run this(1) f' this(2)] show ?thesis by simp
        next
          case (Suc j')
          with j(2) obtain p m' where e: "qualifying_edge ctx m0 p"
            "map_of (ExportMap_for ctx) p = Some m'"
            "route_hops ctx (usable ctx ?tr') m' j'"
            by (auto simp: rooted_def)
          from e(1) obtain ds d where edge: "(p, ds) \<in> set (imports m0)"
            "d \<in> set (toTraverse ctx ds)" by (rule qualifying_edgeE)
          from e(3) have "usable ctx ?tr' m'" by (rule route_hops_root)
          then have "path m' \<notin> ?tr'" by (simp add: usable_def)
          with cache_wfD [OF wf e(2)] have fresh: "p \<notin> ?tr'" by simp
          have "length (route nxt) + 1 \<le> K" using front w(4) j(1) Suc by simp
          with depth have deep: "enat (length (route nxt) + 1) < maxDepth ctx"
            by (metis enat_ord_simps(1) le_less_trans)
          let ?u = "\<lparr>mget = getter ctx p, route = route nxt @ [source d]\<rparr>"
          from loop_complete [OF free run edge(1) fresh edge(2)] deep
          have "?u \<in> set q'" by blast
          moreover have "mget ?u () = Some m'" using e(2) by (simp add: getter_def)
          moreover have "length (route ?u) + j' \<le> K" using front w(4) j(1) Suc by simp
          ultimately show ?thesis using e(3) unfolding promising_def by blast
        qed
      qed
      from "2.IH" [OF refl nf, unfolded step fst_conv snd_conv, OF wf depth f' cached' lev' prom']
      show ?thesis using False by (simp add: Let_def step)
    qed
  qed
qed

subsection \<open>Consequences for one module's loop\<close>

lemma loop_closes:
  assumes free: "allowUnsafeDynamicCyclicDependency ctx \<longrightarrow>
            (\<forall>(p, ds) \<in> set imps. \<forall>d \<in> set (toTraverse ctx ds). \<not> dynamic d)"
    and f: "filename ctx \<notin> tr"
    and edge: "(filename ctx, ds) \<in> set imps" "d \<in> set (toTraverse ctx ds)"
  shows "fst (detectCycle_imports ctx tr rt imps q)"
proof (rule ccontr)
  assume "\<not> fst (detectCycle_imports ctx tr rt imps q)"
  then have "detectCycle_imports ctx tr rt imps q
      = (False, snd (detectCycle_imports ctx tr rt imps q))"
    by (cases "detectCycle_imports ctx tr rt imps q") simp
  from loop_complete [OF free this edge(1) f edge(2)] show False by simp
qed

lemma toTraverse_no_types:
  "toTraverse ctx (filter (\<lambda>d. \<not> isOnlyImportingTypes d) ds) = toTraverse ctx ds"
  unfolding toTraverse_def filter_filter by (rule filter_cong) auto

lemma loop_without_types:
  "detectCycle_imports ctx tr rt
       (map (\<lambda>(p, ds). (p, filter (\<lambda>d. \<not> isOnlyImportingTypes d) ds)) imps) q
     = detectCycle_imports ctx tr rt imps q"
proof (induction imps arbitrary: q)
  case Nil
  show ?case by simp
next
  case (Cons e rest)
  obtain p ds where e: "e = (p, ds)" by (cases e)
  show ?case unfolding e
    by (simp only: list.map prod.case detectCycle_imports.simps toTraverse_no_types Cons.IH)
qed

lemma loop_abandoned:
  assumes allow: "allowUnsafeDynamicCyclicDependency ctx"
    and fresh: "p \<notin> tr" and dyn: "d \<in> set (toTraverse ctx ds)" "dynamic d"
  shows "detectCycle_imports ctx tr rt (before @ (p, ds) # after) q
           = detectCycle_imports ctx tr rt before q"
proof (induction before arbitrary: q)
  case Nil
  from allow fresh dyn show ?case by auto
next
  case (Cons e rest)
  obtain p1 ds1 where e: "e = (p1, ds1)" by (cases e)
  show ?case unfolding e
    by (simp only: append_Cons detectCycle_imports.simps Cons.IH)
qed

subsection \<open>The search from the imported module\<close>

text \<open>
  For a resolved import that is not the linted file itself and is not separated from it
  by the SCC mapping, the report of \<open>searchCycle\<close> is the rendering of the traverser
  that \<open>findCycle\<close> returns (\<open>searchCycle_report\<close> below); the statements about
  \<open>findCycle\<close> are statements about the report.
\<close>

lemma findCycle_closes_at_once:
  assumes ok: "usable ctx tr m" and f: "filename ctx \<notin> tr" "path m \<noteq> filename ctx"
    and edge: "qualifying_edge ctx m (filename ctx)"
  shows "\<exists>t. findCycle ctx tr m = (Some t, insert (path m) tr) \<and> route t = []"
proof -
  let ?t = "\<lparr>mget = (\<lambda>_. Some m), route = []\<rparr>"
  from ok have fresh: "path m \<notin> tr" by (simp add: usable_def)
  from edge obtain ds d where e: "(filename ctx, ds) \<in> set (imports m)"
    "d \<in> set (toTraverse ctx ds)" by (rule qualifying_edgeE)
  from f have "filename ctx \<notin> insert (path m) tr" by auto
  from loop_closes [OF usable_free [OF ok] this e]
  have "fst (detectCycle_imports ctx (insert (path m) tr) [] (imports m) [])" .
  then obtain q' where
    "detectCycle_imports ctx (insert (path m) tr) [] (imports m) [] = (True, q')"
    by (cases "detectCycle_imports ctx (insert (path m) tr) [] (imports m) []") simp
  with fresh have "detectCycle ctx tr [] ?t = (True, insert (path m) tr, q')"
    by (simp add: detectCycle_def)
  then have "findCycle ctx tr m = (Some ?t, insert (path m) tr)"
    by (simp add: findCycle_def Let_def)
  then show ?thesis by simp
qed

lemma findCycle_found:
  assumes wf: "cache_wf ctx"
    and node: "map_of (ExportMap_for ctx) (path imported) = Some imported"
    and nf: "path imported \<noteq> filename ctx" and ftr: "filename ctx \<notin> tr"
    and r: "route_hops ctx (usable ctx tr) imported k" and d: "enat k < maxDepth ctx"
  shows "\<exists>t tr'. findCycle ctx tr imported = (Some t, tr') \<and> length (route t) \<le> k"
proof -
  let ?t = "\<lparr>mget = (\<lambda>_. Some imported), route = []\<rparr>"
  have "cached ctx [?t]" using node nf by (simp add: cached_def)
  moreover have "levelled [?t]" by (simp add: levelled_def)
  moreover have "promising ctx tr k [?t]" using r by (auto simp: promising_def)
  ultimately show ?thesis
    unfolding findCycle_def using bfs_complete [OF wf d ftr] by blast
qed

lemma findCycle_follows:
  assumes "findCycle ctx tr imported = (Some t, tr')"
  shows "route_follows ctx (unvisited tr) imported (route t)"
proof -
  have "\<forall>t \<in> set [\<lparr>mget = (\<lambda>_. Some imported), route = []\<rparr>]. justified ctx tr imported t"
    by (simp add: justified_start)
  from bfs_sound [OF assms [unfolded findCycle_def] subset_refl this] show ?thesis .
qed

lemma findCycle_sound:
  assumes "findCycle ctx tr imported = (Some t, tr')"
  shows "route_hops ctx (unvisited tr) imported (length (route t))"
  using findCycle_follows [OF assms] by (rule route_follows_hops)


lemma searchCycle_report:
  assumes "ExportMap_get ctx v = Some imported" "path imported \<noteq> filename ctx"
    and "case scc ctx of Some s \<Rightarrow> s (filename ctx) = s (path imported) | None \<Rightarrow> True"
  shows "searchCycle ctx tr v imp
           = (map_option (cycleReport imp) (fst (findCycle ctx tr imported)),
              snd (findCycle ctx tr imported))"
  using assms by (auto simp: searchCycle_def split: option.splits prod.splits)

lemma usable_static: "\<not> allowUnsafeDynamicCyclicDependency ctx \<Longrightarrow> usable ctx tr = unvisited tr"
  by (auto simp: usable_def unvisited_def fun_eq_iff)

subsection \<open>The visited set over a file and a run\<close>

lemma checkSourceValue_mono: "tr \<subseteq> snd (checkSourceValue ctx tr v imp)"
proof -
  have grow: "tr \<subseteq> tr'" if "findCycle ctx tr m = (r, tr')" for m r tr'
    using bfs_traversed_mono [of tr ctx "[\<lparr>mget = (\<lambda>_. Some m), route = []\<rparr>]"] that
    by (simp add: findCycle_def)
  have "tr \<subseteq> snd (searchCycle ctx tr v imp)"
    by (auto simp: searchCycle_def split: option.splits prod.splits dest: grow)
  then show ?thesis by (simp add: checkSourceValue_def)
qed

lemma visit_mono: "tr \<subseteq> snd (visit ctx tr nodes)"
proof (induction nodes arbitrary: tr)
  case Nil
  show ?case by simp
next
  case (Cons n nodes)
  obtain v imp where n: "n = (v, imp)" by (cases n)
  have "tr \<subseteq> snd (checkSourceValue ctx tr v imp)" by (rule checkSourceValue_mono)
  also have "\<dots> \<subseteq> snd (visit ctx (snd (checkSourceValue ctx tr v imp)) nodes)"
    by (rule Cons.IH)
  finally show ?case
    by (cases "checkSourceValue ctx tr v imp";
        cases "visit ctx (snd (checkSourceValue ctx tr v imp)) nodes") (simp add: n)
qed

lemma lintFile_clears: "tr = {} \<or> filename ctx \<noteq> ''<text>'' \<Longrightarrow> snd (lintFile ctx tr nodes) = {}"
  by (auto simp: lintFile_def program_exit_def split: prod.splits)

lemma lintRun_clears: "snd (lintRun {} files) = {}"
proof (induction files)
  case Nil
  show ?case by simp
next
  case (Cons fl files)
  obtain ctx nodes where fl: "fl = (ctx, nodes)" by (cases fl)
  have "snd (lintFile ctx {} nodes) = {}" by (simp add: lintFile_clears)
  with Cons.IH show ?case
    by (cases "lintFile ctx {} nodes"; cases "lintRun {} files") (simp add: fl)
qed

subsection \<open>Routes of the example graphs\<close>



lemma detour_route:
  "route_hops (graph_context ''a'' None False one_component graph_detour) (unvisited {})
     (node_of graph_detour ''y'') (Suc 0)"
proof -
  let ?ctx = "graph_context ''a'' None False one_component graph_detour"
  have "route_hops ?ctx (unvisited {}) (node_of graph_detour ''z'') 0"
    by (rule route_hops_closes) (simp_all add: graph_defs route_defs)
  then show ?thesis
    by (rule route_hops_hop [where p = "''z''", rotated -1]) (simp_all add: graph_defs route_defs)
qed

section \<open>The claims\<close>

text \<open>
  C1. When the SCC mapping is available and gives the linted file and the resolved target
  different entries, \<^verbatim>\<open>checkSourceValue\<close> returns before the search: it reports nothing
  and leaves the traversed set as it was, whatever the importer and the state.
\<close>

theorem scc_filter_no_report:
  assumes "scc ctx = Some s" and "ExportMap_get ctx v = Some imported"
    and "s (filename ctx) \<noteq> s (path imported)"
  shows "checkSourceValue ctx traversed v imp = (None, traversed)"
  using assms by (simp add: checkSourceValue_def searchCycle_def)

theorem scc_filter_no_report_witness:
  "scc (graph_context ''a'' None False two_components graph_a_b) = two_components
   \<and> ExportMap_get (graph_context ''a'' None False two_components graph_a_b) ''b''
       = Some \<lparr>path = ''b'', imports = []\<rparr>
   \<and> checkSourceValue (graph_context ''a'' None False two_components graph_a_b) {} ''b''
        named_import = (None, {})"
proof -
  let ?ctx = "graph_context ''a'' None False two_components graph_a_b"
  have 1: "scc ?ctx = Some (\<lambda>p. if p = ''a'' then Some 0 else Some 1)"
    by (simp add: graph_defs)
  have 2: "ExportMap_get ?ctx ''b'' = Some \<lparr>path = ''b'', imports = []\<rparr>"
    by (simp add: graph_defs)
  have 3: "(\<lambda>p. if p = ''a'' then Some (0::nat) else Some 1) (filename ?ctx)
             \<noteq> (\<lambda>p. if p = ''a'' then Some 0 else Some 1) (path \<lparr>path = ''b'', imports = []\<rparr>)"
    by (simp add: graph_defs)
  from scc_filter_no_report [OF 1 2 3, of "{}" named_import] 1 2
  show ?thesis by (simp add: two_components_def)
qed

text \<open>
  C2, as amended. Let the cache be well formed, let the imported module be the cache's
  node for its path and not the linted file, and let the linted file be unvisited. If a
  route of \<open>k\<close> hops below \<open>maxDepth\<close> leads from the imported module back to the linted
  file through modules that are not yet visited (and, when dynamic cycles are allowed,
  have no dynamic import), then the search returns a traverser whose route has at most
  \<open>k\<close> entries, and this route follows the graph: its entries are, in order, the sources
  of qualifying declarations along a path from the imported module, through unvisited
  modules, to a module that imports the linted file. When dynamic cycles are not
  allowed, no qualifying route through unvisited modules is shorter; for the first check
  of a file these are all qualifying routes. For a specifier that resolves to the
  imported module, in the same component, the report is the rendering of this route.
\<close>

theorem shortest_route_reported:
  assumes wf: "cache_wf ctx"
    and node: "map_of (ExportMap_for ctx) (path imported) = Some imported"
    and nf: "path imported \<noteq> filename ctx" and ftr: "filename ctx \<notin> tr"
    and r: "route_hops ctx (usable ctx tr) imported k" and d: "enat k < maxDepth ctx"
  shows "\<exists>t tr'. findCycle ctx tr imported = (Some t, tr')
           \<and> length (route t) \<le> k
           \<and> route_follows ctx (unvisited tr) imported (route t)
           \<and> route_hops ctx (unvisited tr) imported (length (route t))
           \<and> (\<not> allowUnsafeDynamicCyclicDependency ctx
                 \<longrightarrow> minimal_route ctx (unvisited tr) imported (length (route t)))
           \<and> (ExportMap_get ctx v = Some imported
                 \<and> (case scc ctx of Some s \<Rightarrow> s (filename ctx) = s (path imported)
                       | None \<Rightarrow> True)
                 \<longrightarrow> fst (searchCycle ctx tr v imp) = Some (cycleReport imp t))"
proof -
  from findCycle_found [OF wf node nf ftr r d] obtain t tr' where
    t: "findCycle ctx tr imported = (Some t, tr')" "length (route t) \<le> k" by blast
  from t(1) have follows: "route_follows ctx (unvisited tr) imported (route t)"
    by (rule findCycle_follows)
  from t(1) have route: "route_hops ctx (unvisited tr) imported (length (route t))"
    by (rule findCycle_sound)
  have minimal: "minimal_route ctx (unvisited tr) imported (length (route t))"
    if static: "\<not> allowUnsafeDynamicCyclicDependency ctx"
    unfolding minimal_route_def
  proof (intro conjI allI impI notI)
    show "route_hops ctx (unvisited tr) imported (length (route t))" by (rule route)
  next
    fix j assume short: "j < length (route t)"
      and j: "route_hops ctx (unvisited tr) imported j"
    from short t(2) have "j < k" by simp
    with d have dj: "enat j < maxDepth ctx"
      by (metis enat_ord_simps(2) less_trans)
    from j have "route_hops ctx (usable ctx tr) imported j"
      by (simp add: usable_static [OF static])
    from findCycle_found [OF wf node nf ftr this dj] t(1) have "length (route t) \<le> j"
      by auto
    with short show False by simp
  qed
  have report: "fst (searchCycle ctx tr v imp) = Some (cycleReport imp t)"
    if "ExportMap_get ctx v = Some imported
          \<and> (case scc ctx of Some s \<Rightarrow> s (filename ctx) = s (path imported) | None \<Rightarrow> True)"
  proof -
    from that have "ExportMap_get ctx v = Some imported"
      and "case scc ctx of Some s \<Rightarrow> s (filename ctx) = s (path imported) | None \<Rightarrow> True"
      by simp_all
    from searchCycle_report [OF this(1) nf this(2), of tr imp] t(1) show ?thesis by simp
  qed
  from t follows route minimal report show ?thesis by blast
qed

text \<open>
  The witness: in the graph with the detour, checked first, the import of \<open>y\<close> is
  reported with the route through \<open>z\<close>, the shortest one.
\<close>

theorem shortest_route_reported_witness:
  "\<exists>t tr'. findCycle (graph_context ''a'' None False one_component graph_detour) {}
               (node_of graph_detour ''y'') = (Some t, tr')
     \<and> route t = [\<lparr>svalue = ''z'', line = 1\<rparr>]
     \<and> route_follows (graph_context ''a'' None False one_component graph_detour) (unvisited {})
          (node_of graph_detour ''y'') (route t)
     \<and> minimal_route (graph_context ''a'' None False one_component graph_detour) (unvisited {})
          (node_of graph_detour ''y'') (length (route t))
     \<and> fst (searchCycle (graph_context ''a'' None False one_component graph_detour) {} ''y''
          named_import) = Some (cycleReport named_import t)"
proof -
  let ?ctx = "graph_context ''a'' None False one_component graph_detour"
  let ?y = "node_of graph_detour ''y''"
  have static: "\<not> allowUnsafeDynamicCyclicDependency ?ctx" by (simp add: graph_defs)
  have wf: "cache_wf ?ctx" by (simp add: graph_defs route_defs)
  have node: "map_of (ExportMap_for ?ctx) (path ?y) = Some ?y" by (simp add: graph_defs)
  have nf: "path ?y \<noteq> filename ?ctx" by (simp add: graph_defs)
  have ftr: "filename ?ctx \<notin> {}" by simp
  have r: "route_hops ?ctx (usable ?ctx {}) ?y 1"
    using detour_route by (simp add: usable_static [OF static])
  have d: "enat 1 < maxDepth ?ctx" by (simp add: graph_defs maxDepth_def)
  have resolved: "ExportMap_get ?ctx ''y'' = Some ?y
     \<and> (case scc ?ctx of Some s \<Rightarrow> s (filename ?ctx) = s (path ?y) | None \<Rightarrow> True)"
    by (simp add: graph_defs)
  from shortest_route_reported [OF wf node nf ftr r d, of "''y''" named_import] static resolved
  obtain t tr' where t: "findCycle ?ctx {} ?y = (Some t, tr')"
    "route_follows ?ctx (unvisited {}) ?y (route t)"
    "minimal_route ?ctx (unvisited {}) ?y (length (route t))"
    "fst (searchCycle ?ctx {} ''y'' named_import) = Some (cycleReport named_import t)"
    by blast
  have "map_option route (fst (findCycle ?ctx {} ?y)) = Some [\<lparr>svalue = ''z'', line = 1\<rparr>]"
    by (simp add: graph_defs rule_defs)
  with t(1) have "route t = [\<lparr>svalue = ''z'', line = 1\<rparr>]" by simp
  with t show ?thesis by blast
qed

text \<open>
  C2 as stated fails when the visited set is not empty. After the check of the import of
  \<open>x\<close> has visited \<open>z\<close>, the check of the import of \<open>y\<close> skips the edge to \<open>z\<close> and
  reports the route through \<open>w\<close> and \<open>v\<close>, of two entries, although the route through
  \<open>z\<close> has one.
\<close>

theorem shortest_route_counterexample:
  "fst (visit (graph_context ''a'' None False one_component graph_detour) {}
          [(''x'', named_import), (''y'', named_import)])
     = [\<lparr>node = named_import, messageId = ''cycle'', data_source = ''via z:1''\<rparr>,
        \<lparr>node = named_import, messageId = ''cycle'', data_source = ''via w:2=>v:1''\<rparr>]
   \<and> map_option (\<lambda>t. length (route t))
        (fst (findCycle (graph_context ''a'' None False one_component graph_detour)
               {''x'', ''z''} (node_of graph_detour ''y''))) = Some 2
   \<and> route_hops (graph_context ''a'' None False one_component graph_detour) (unvisited {})
        (node_of graph_detour ''y'') 1"
proof -
  let ?ctx = "graph_context ''a'' None False one_component graph_detour"
  have "fst (visit ?ctx {} [(''x'', named_import), (''y'', named_import)])
     = [\<lparr>node = named_import, messageId = ''cycle'', data_source = ''via z:1''\<rparr>,
        \<lparr>node = named_import, messageId = ''cycle'', data_source = ''via w:2=>v:1''\<rparr>]"
    by (simp add: graph_defs rule_defs)
  moreover have "map_option (\<lambda>t. length (route t))
        (fst (findCycle ?ctx {''x'', ''z''} (node_of graph_detour ''y''))) = Some 2"
    by (simp add: graph_defs rule_defs)
  ultimately show ?thesis using detour_route by simp
qed



text \<open>
  C4, as amended. In the graph where \<open>a\<close> imports \<open>b\<close>, \<open>b\<close> imports \<open>c\<close> and \<open>c\<close>
  imports \<open>a\<close>, checking the import of \<open>b\<close> in \<open>a\<close> reports nothing for
  \<open>maxDepth = 1\<close>; for \<open>maxDepth = 2\<close> and for \<open>maxDepth = 3\<close> it reports a cycle whose
  route has exactly one entry, the import of \<open>c\<close> in \<open>b\<close>.
\<close>

theorem three_module_cycle_depths:
  "checkSourceValue (graph_context ''a'' (Some 1) False one_component graph_abc) {} ''b''
      named_import = (None, {''b''})
   \<and> checkSourceValue (graph_context ''a'' (Some 2) False one_component graph_abc) {} ''b''
      named_import
       = (Some \<lparr>node = named_import, messageId = ''cycle'', data_source = ''via c:2''\<rparr>,
          {''b'', ''c''})
   \<and> checkSourceValue (graph_context ''a'' (Some 3) False one_component graph_abc) {} ''b''
      named_import
       = (Some \<lparr>node = named_import, messageId = ''cycle'', data_source = ''via c:2''\<rparr>,
          {''b'', ''c''})
   \<and> map_option (\<lambda>t. route t)
        (fst (findCycle (graph_context ''a'' (Some 2) False one_component graph_abc) {}
                \<lparr>path = ''b'', imports = [(''c'', [static_import ''c'' 2])]\<rparr>))
       = Some [\<lparr>svalue = ''c'', line = 2\<rparr>]
   \<and> map_option (\<lambda>t. route t)
        (fst (findCycle (graph_context ''a'' (Some 3) False one_component graph_abc) {}
                \<lparr>path = ''b'', imports = [(''c'', [static_import ''c'' 2])]\<rparr>))
       = Some [\<lparr>svalue = ''c'', line = 2\<rparr>]"
  by (simp add: graph_defs rule_defs insert_commute)

theorem three_module_cycle_depths_witness:
  "fst (checkSourceValue (graph_context ''a'' (Some 1) False one_component graph_abc) {} ''b''
      named_import) = None"
  using three_module_cycle_depths by simp

text \<open>
  C4 as stated fails: for \<open>maxDepth = 2\<close> there is a report, and for \<open>maxDepth = 3\<close> the
  reported route does not have two entries.
\<close>

theorem three_module_cycle_counterexample:
  "fst (checkSourceValue (graph_context ''a'' (Some 2) False one_component graph_abc) {} ''b''
          named_import) \<noteq> None
   \<and> map_option (\<lambda>t. length (route t))
        (fst (findCycle (graph_context ''a'' (Some 3) False one_component graph_abc) {}
                \<lparr>path = ''b'', imports = [(''c'', [static_import ''c'' 2])]\<rparr>)) \<noteq> Some 2"
  by (simp add: graph_defs rule_defs)

text \<open>
  C5, as amended. When the imported module itself has a qualifying import of the linted
  file (and is unvisited, resolved, in the same component, and the importer is an import
  declaration that is not skipped), the check reports a cycle at that declaration with an
  empty route: the message is \<^verbatim>\<open>Dependency cycle detected.\<close>
\<close>

theorem two_module_cycle_detected:
  assumes guards: "\<not> ignoreModule ctx v" "kind \<noteq> Some ''type''"
      "\<not> list_all (\<lambda>s. importKind s = Some ''type'') specs"
    and resolved: "ExportMap_get ctx v = Some m" "path m \<noteq> filename ctx"
    and component: "case scc ctx of Some s \<Rightarrow> s (filename ctx) = s (path m) | None \<Rightarrow> True"
    and state: "usable ctx tr m" "filename ctx \<notin> tr"
    and closing: "qualifying_edge ctx m (filename ctx)"
  shows "checkSourceValue ctx tr v (ImportDeclaration kind specs)
           = (Some \<lparr>node = ImportDeclaration kind specs, messageId = ''cycle'',
                     data_source = ''detected.''\<rparr>, insert (path m) tr)
         \<and> message \<lparr>node = ImportDeclaration kind specs, messageId = ''cycle'',
                     data_source = ''detected.''\<rparr> = ''Dependency cycle detected.''"
proof -
  from findCycle_closes_at_once [OF state(1,2) resolved(2) closing] obtain t where
    t: "findCycle ctx tr m = (Some t, insert (path m) tr)" "route t = []" by blast
  have "\<not> (case scc ctx of Some s \<Rightarrow> s (filename ctx) \<noteq> s (path m) | None \<Rightarrow> False)"
    using component by (simp split: option.splits)
  with guards resolved t show ?thesis
    by (simp add: checkSourceValue_def searchCycle_def cycleReport_def message_def)
qed

theorem two_module_cycle_detected_witness:
  "checkSourceValue (graph_context ''a'' None False one_component graph_ab) {} ''b'' named_import
     = (Some \<lparr>node = named_import, messageId = ''cycle'', data_source = ''detected.''\<rparr>, {''b''})"
proof -
  let ?ctx = "graph_context ''a'' None False one_component graph_ab"
  let ?b = "\<lparr>path = ''b'', imports = [(''a'', [static_import ''a'' 3])]\<rparr>"
  have "\<not> ignoreModule ?ctx ''b''" by (simp add: graph_defs ignoreModule_def)
  moreover have "Some ''value'' \<noteq> Some ''type''" by simp
  moreover have "\<not> list_all (\<lambda>s. importKind s = Some ''type'') [Specifier (Some ''value'')]"
    by simp
  moreover have "ExportMap_get ?ctx ''b'' = Some ?b" by (simp add: graph_defs)
  moreover have "path ?b \<noteq> filename ?ctx" by (simp add: graph_defs)
  moreover have "case scc ?ctx of Some s \<Rightarrow> s (filename ?ctx) = s (path ?b) | None \<Rightarrow> True"
    by (simp add: graph_defs)
  moreover have "usable ?ctx {} ?b" by (simp add: graph_defs usable_def)
  moreover have "filename ?ctx \<notin> {}" by simp
  moreover have "qualifying_edge ?ctx ?b (filename ?ctx)"
    by (simp add: graph_defs qualifying_edge_def toTraverse_def ignoreModule_def)
  ultimately show ?thesis
    using two_module_cycle_detected [of ?ctx "''b''" "Some ''value''" "[Specifier (Some ''value'')]"
        ?b "{}"]
    by (simp add: named_import_def)
qed

text \<open>
  C5 as stated fails: in the graph where \<open>a\<close> imports \<open>b\<close> and \<open>b\<close> imports \<open>a\<close> at
  line 3, the message is not \<^verbatim>\<open>Dependency cycle via b:3\<close>.
\<close>

theorem two_module_route_counterexample:
  "\<exists>r. fst (checkSourceValue (graph_context ''a'' None False one_component graph_ab) {} ''b''
             named_import) = Some r
       \<and> message r = ''Dependency cycle detected.''
       \<and> message r \<noteq> ''Dependency cycle via b:3''"
  by (simp add: graph_defs rule_defs message_def)

text \<open>
  C6, as amended. With dynamic cycles allowed, when the loop over the imports of a
  reached module comes to an entry for an unvisited path whose qualifying declarations
  include a dynamic one, the module is abandoned at that entry: the result is the one of
  the entries before it, so that entry and all later ones push nothing and confirm no
  cycle. If it is the first entry, the module pushes nothing and confirms nothing.
\<close>

theorem dynamic_escape_from_entry:
  assumes allow: "allowUnsafeDynamicCyclicDependency ctx"
    and node: "mget t () = Some m" "path m \<notin> traversed"
    and entry: "imports m = before @ (p, ds) # after" "p \<notin> traversed" "p \<noteq> path m"
    and dyn: "d \<in> set (toTraverse ctx ds)" "dynamic d"
  shows "detectCycle ctx traversed untraversed t
           = (case detectCycle_imports ctx (insert (path m) traversed) (route t) before untraversed of
                (r, untraversed') \<Rightarrow> (r, insert (path m) traversed, untraversed'))
         \<and> (before = [] \<longrightarrow>
              detectCycle ctx traversed untraversed t
                = (False, insert (path m) traversed, untraversed))"
proof -
  from entry(2,3) have "p \<notin> insert (path m) traversed" by simp
  from loop_abandoned [OF allow this dyn]
  have "detectCycle_imports ctx (insert (path m) traversed) (route t) (imports m) untraversed
      = detectCycle_imports ctx (insert (path m) traversed) (route t) before untraversed"
    by (simp add: entry(1))
  with node have "detectCycle ctx traversed untraversed t
           = (case detectCycle_imports ctx (insert (path m) traversed) (route t) before untraversed of
                (r, untraversed') \<Rightarrow> (r, insert (path m) traversed, untraversed'))"
    by (simp add: detectCycle_def)
  then show ?thesis by simp
qed

theorem dynamic_escape_from_entry_witness:
  "checkSourceValue (graph_context ''a'' None True one_component graph_dynamic_first) {} ''b''
      named_import = (None, {''b''})
   \<and> detectCycle (graph_context ''a'' None True one_component graph_dynamic_first) {} []
        \<lparr>mget = (\<lambda>_. Some (node_of graph_dynamic_first ''b'')), route = []\<rparr>
       = (False, {''b''}, [])"
proof -
  let ?ctx = "graph_context ''a'' None True one_component graph_dynamic_first"
  let ?b = "node_of graph_dynamic_first ''b''"
  let ?t = "\<lparr>mget = (\<lambda>_. Some ?b), route = []\<rparr>"
  have allow: "allowUnsafeDynamicCyclicDependency ?ctx" by (simp add: graph_defs)
  have node: "mget ?t () = Some ?b" "path ?b \<notin> {}" by simp_all
  have entry: "imports ?b = [] @ (''c'', [dynamic_import ''c'' 1]) # [(''a'', [static_import ''a'' 2])]"
    "''c'' \<notin> {}" "''c'' \<noteq> path ?b" by (simp_all add: graph_defs)
  have dyn: "dynamic_import ''c'' 1 \<in> set (toTraverse ?ctx [dynamic_import ''c'' 1])"
    "dynamic (dynamic_import ''c'' 1)" by (simp_all add: graph_defs route_defs)
  from dynamic_escape_from_entry [OF allow node entry dyn, of "[]"]
  have "detectCycle ?ctx {} [] ?t = (False, {''b''}, [])" by (simp add: graph_defs)
  moreover have "checkSourceValue ?ctx {} ''b'' named_import = (None, {''b''})"
    by (simp add: graph_defs rule_defs)
  ultimately show ?thesis by simp
qed

text \<open>
  C6 as stated fails. A cycle is confirmed through \<open>b\<close>, which imports \<open>c\<close>
  dynamically, when the static import of \<open>a\<close> is the earlier entry of \<open>b\<close>; and also when
  the dynamic import is the earlier entry but \<open>c\<close> has been visited before, by the
  check of an earlier import of the file.
\<close>

theorem dynamic_escape_counterexample:
  "allowUnsafeDynamicCyclicDependency (graph_context ''a'' None True one_component graph_dynamic_last)
   \<and> \<not> dynamic_free (graph_context ''a'' None True one_component graph_dynamic_last)
          \<lparr>path = ''b'', imports = [(''a'', [static_import ''a'' 1]),
                                      (''c'', [dynamic_import ''c'' 2])]\<rparr>
   \<and> checkSourceValue (graph_context ''a'' None True one_component graph_dynamic_last) {} ''b''
        named_import
       = (Some \<lparr>node = named_import, messageId = ''cycle'', data_source = ''detected.''\<rparr>,
          {''b''})
   \<and> \<not> dynamic_free (graph_context ''a'' None True one_component graph_dynamic_first)
          \<lparr>path = ''b'', imports = [(''c'', [dynamic_import ''c'' 1]),
                                      (''a'', [static_import ''a'' 2])]\<rparr>
   \<and> fst (visit (graph_context ''a'' None True one_component graph_dynamic_first) {}
             [(''c'', named_import), (''b'', named_import)])
       = [\<lparr>node = named_import, messageId = ''cycle'', data_source = ''detected.''\<rparr>]"
  by (simp add: graph_defs rule_defs dynamic_free_def)

text \<open>
  C7, as amended. Whatever the configuration, an import declaration whose
  \<^verbatim>\<open>importKind\<close> is \<open>type\<close>, or all of whose specifiers have the \<^verbatim>\<open>importKind\<close>
  \<open>type\<close>, is skipped as a triggering declaration, and no other importer is skipped for
  being type-level: an import declaration of another kind, and a re-export of any
  \<^verbatim>\<open>exportKind\<close>, go on to the search unless the module is ignored as external. During
  the search the filter \<open>toTraverse\<close> keeps no declaration that the module graph flags
  \<^verbatim>\<open>isOnlyImportingTypes\<close>, and the loop over a module's imports gives the same result
  when the flagged declarations are removed from every entry: they contribute no edge.
\<close>

theorem type_only_never_contributes:
  "(kind = Some ''type'' \<or> list_all (\<lambda>s. importKind s = Some ''type'') specs
      \<longrightarrow> checkSourceValue ctx traversed v (ImportDeclaration kind specs) = (None, traversed))
   \<and> (\<forall>d \<in> set (toTraverse ctx ds). \<not> isOnlyImportingTypes d)
   \<and> toTraverse ctx (filter isOnlyImportingTypes ds) = []
   \<and> detectCycle_imports ctx tr rt
        (map (\<lambda>(p, ds). (p, filter (\<lambda>d. \<not> isOnlyImportingTypes d) ds)) imps) q
       = detectCycle_imports ctx tr rt imps q
   \<and> checkSourceValue ctx traversed v (ImportDeclaration kind specs)
       = (if ignoreModule ctx v \<or> kind = Some ''type''
             \<or> list_all (\<lambda>s. importKind s = Some ''type'') specs
          then (None, traversed)
          else searchCycle ctx traversed v (ImportDeclaration kind specs))
   \<and> checkSourceValue ctx traversed v (ExportNamedDeclaration ekind)
       = (if ignoreModule ctx v then (None, traversed)
          else searchCycle ctx traversed v (ExportNamedDeclaration ekind))
   \<and> checkSourceValue ctx traversed v (ExportAllDeclaration ekind)
       = (if ignoreModule ctx v then (None, traversed)
          else searchCycle ctx traversed v (ExportAllDeclaration ekind))"
proof (intro conjI impI)
  assume "kind = Some ''type'' \<or> list_all (\<lambda>s. importKind s = Some ''type'') specs"
  then show "checkSourceValue ctx traversed v (ImportDeclaration kind specs) = (None, traversed)"
    by (simp add: checkSourceValue_def)
next
  show "\<forall>d \<in> set (toTraverse ctx ds). \<not> isOnlyImportingTypes d"
    by (simp add: toTraverse_def)
next
  show "toTraverse ctx (filter isOnlyImportingTypes ds) = []"
    by (simp add: toTraverse_def)
next
  show "detectCycle_imports ctx tr rt
        (map (\<lambda>(p, ds). (p, filter (\<lambda>d. \<not> isOnlyImportingTypes d) ds)) imps) q
       = detectCycle_imports ctx tr rt imps q"
    by (rule loop_without_types)
next
  show "checkSourceValue ctx traversed v (ImportDeclaration kind specs)
       = (if ignoreModule ctx v \<or> kind = Some ''type''
             \<or> list_all (\<lambda>s. importKind s = Some ''type'') specs
          then (None, traversed)
          else searchCycle ctx traversed v (ImportDeclaration kind specs))"
    by (simp add: checkSourceValue_def)
next
  show "checkSourceValue ctx traversed v (ExportNamedDeclaration ekind)
       = (if ignoreModule ctx v then (None, traversed)
          else searchCycle ctx traversed v (ExportNamedDeclaration ekind))"
    by (simp add: checkSourceValue_def)
next
  show "checkSourceValue ctx traversed v (ExportAllDeclaration ekind)
       = (if ignoreModule ctx v then (None, traversed)
          else searchCycle ctx traversed v (ExportAllDeclaration ekind))"
    by (simp add: checkSourceValue_def)
qed

theorem type_only_never_contributes_witness:
  "checkSourceValue (graph_context ''a'' None False one_component graph_ab) {} ''b''
       (ImportDeclaration (Some ''type'') [Specifier None]) = (None, {})
   \<and> checkSourceValue (graph_context ''a'' None False one_component graph_ab) {} ''b''
       (ImportDeclaration (Some ''value'') [Specifier (Some ''type''), Specifier (Some ''type'')])
       = (None, {})
   \<and> toTraverse (graph_context ''a'' None False one_component graph_ab)
        [type_import ''a'' 1, static_import ''a'' 2] = [static_import ''a'' 2]
   \<and> checkSourceValue (graph_context ''a'' None False one_component graph_ab) {} ''b''
       (ExportNamedDeclaration (Some ''type''))
       = searchCycle (graph_context ''a'' None False one_component graph_ab) {} ''b''
           (ExportNamedDeclaration (Some ''type''))"
proof -
  let ?ctx = "graph_context ''a'' None False one_component graph_ab"
  note inst = type_only_never_contributes [of _ _ ?ctx "{}" "''b''"
      "[type_import ''a'' 1, static_import ''a'' 2]"]
  have 1: "checkSourceValue ?ctx {} ''b'' (ImportDeclaration (Some ''type'') [Specifier None])
      = (None, {})"
     using inst [of "Some ''type''" "[Specifier None]"] by simp
  have 2: "checkSourceValue ?ctx {} ''b''
       (ImportDeclaration (Some ''value'') [Specifier (Some ''type''), Specifier (Some ''type'')])
       = (None, {})"
     using inst [of "Some ''value''" "[Specifier (Some ''type''), Specifier (Some ''type'')]"]
    by simp
  have 3: "toTraverse ?ctx [type_import ''a'' 1, static_import ''a'' 2] = [static_import ''a'' 2]"
    by (simp add: toTraverse_def graph_defs ignoreModule_def)
  have "\<not> ignoreModule ?ctx ''b''" by (simp add: graph_defs ignoreModule_def)
  with inst [of None "[]" _ _ _ _ "Some ''type''"]
  have 4: "checkSourceValue ?ctx {} ''b'' (ExportNamedDeclaration (Some ''type''))
       = searchCycle ?ctx {} ''b'' (ExportNamedDeclaration (Some ''type''))"
    by simp
  from 1 2 3 4 show ?thesis by simp
qed

text \<open>
  C7 as stated fails for declarations that import only types but are not import
  declarations of kind \<open>type\<close>: in the graph where \<open>a\<close> imports \<open>b\<close> and \<open>b\<close> imports
  \<open>a\<close>, a type-only re-export from \<open>b\<close> and an import of kind \<open>typeof\<close> are both checked
  and reported.
\<close>

theorem type_only_counterexample:
  "checkSourceValue (graph_context ''a'' None False one_component graph_ab) {} ''b''
       (ExportNamedDeclaration (Some ''type''))
     = (Some \<lparr>node = ExportNamedDeclaration (Some ''type''), messageId = ''cycle'',
               data_source = ''detected.''\<rparr>, {''b''})
   \<and> checkSourceValue (graph_context ''a'' None False one_component graph_ab) {} ''b''
       (ImportDeclaration (Some ''typeof'') [Specifier None])
     = (Some \<lparr>node = ImportDeclaration (Some ''typeof'') [Specifier None], messageId = ''cycle'',
               data_source = ''detected.''\<rparr>, {''b''})"
  by (simp add: graph_defs rule_defs)

text \<open>
  C8. With dynamic cycles allowed, an import expression is skipped, and a call of
  \<^verbatim>\<open>require\<close> is not: unless its module is ignored as external, its result is the
  one of the search.
\<close>

theorem require_call_still_checked:
  assumes "allowUnsafeDynamicCyclicDependency ctx"
  shows "checkSourceValue ctx traversed v ImportExpression = (None, traversed)
         \<and> checkSourceValue ctx traversed v (CallExpression (Some ''require''))
             = (if ignoreModule ctx v then (None, traversed)
                else searchCycle ctx traversed v (CallExpression (Some ''require'')))"
  using assms by (simp add: checkSourceValue_def)

theorem require_call_still_checked_witness:
  "allowUnsafeDynamicCyclicDependency (graph_context ''a'' None True one_component graph_ab)
   \<and> checkSourceValue (graph_context ''a'' None True one_component graph_ab) {} ''b''
        ImportExpression = (None, {})
   \<and> checkSourceValue (graph_context ''a'' None True one_component graph_ab) {} ''b''
        (CallExpression (Some ''require''))
       = (Some \<lparr>node = CallExpression (Some ''require''), messageId = ''cycle'',
                 data_source = ''detected.''\<rparr>, {''b''})"
proof -
  let ?ctx = "graph_context ''a'' None True one_component graph_ab"
  have allow: "allowUnsafeDynamicCyclicDependency ?ctx" by (simp add: graph_defs)
  have search: "searchCycle ?ctx {} ''b'' (CallExpression (Some ''require''))
       = (Some \<lparr>node = CallExpression (Some ''require''), messageId = ''cycle'',
                 data_source = ''detected.''\<rparr>, {''b''})"
    by (simp add: graph_defs rule_defs)
  have "\<not> ignoreModule ?ctx ''b''" by (simp add: graph_defs ignoreModule_def)
  with require_call_still_checked [OF allow, of "{}" "''b''"] allow search
  show ?thesis by simp
qed

text \<open>
  C9. The set \<^verbatim>\<open>traversed\<close> is empty when it is created and after every file of a run,
  so that every file's analysis begins with the empty set; a check and a whole file's
  visit only add to it; the end of a file's analysis clears it. Consequently, when every
  route from the imported module back to the linted file passes a module that is already
  visited, nothing is reported.
\<close>

theorem traversed_lifecycle:
  "traversed_init = {}
   \<and> snd (lintRun traversed_init files) = {}
   \<and> traversed \<subseteq> snd (checkSourceValue ctx traversed v imp)
   \<and> traversed \<subseteq> snd (visit ctx traversed nodes)
   \<and> (filename ctx \<noteq> ''<text>'' \<longrightarrow> snd (lintFile ctx traversed nodes) = {})
   \<and> ((\<forall>k. \<not> route_hops ctx (unvisited traversed) imported k)
         \<longrightarrow> fst (findCycle ctx traversed imported) = None)"
proof (intro conjI impI)
  show "traversed_init = {}" by (simp add: traversed_init_def)
  show "snd (lintRun traversed_init files) = {}"
    unfolding traversed_init_def by (rule lintRun_clears)
  show "traversed \<subseteq> snd (checkSourceValue ctx traversed v imp)"
    by (rule checkSourceValue_mono)
  show "traversed \<subseteq> snd (visit ctx traversed nodes)" by (rule visit_mono)
  show "snd (lintFile ctx traversed nodes) = {}" if "filename ctx \<noteq> ''<text>''"
    using that by (simp add: lintFile_clears)
  show "fst (findCycle ctx traversed imported) = None"
    if none: "\<forall>k. \<not> route_hops ctx (unvisited traversed) imported k"
  proof (rule ccontr)
    assume "fst (findCycle ctx traversed imported) \<noteq> None"
    then obtain t tr' where "findCycle ctx traversed imported = (Some t, tr')"
      by (cases "findCycle ctx traversed imported") auto
    from findCycle_sound [OF this] none show False by blast
  qed
qed

text \<open>
  The witness: \<open>y\<close> is on a cycle through \<open>z\<close>, but after the check of \<open>x\<close> has visited
  \<open>z\<close> the import of \<open>y\<close> is not reported.
\<close>

theorem traversed_lifecycle_witness:
  "route_hops (graph_context ''a'' None False one_component graph_revisit) (unvisited {})
     (node_of graph_revisit ''y'') 1
   \<and> (\<forall>k. \<not> route_hops (graph_context ''a'' None False one_component graph_revisit)
              (unvisited {''x'', ''z''}) (node_of graph_revisit ''y'') k)
   \<and> fst (findCycle (graph_context ''a'' None False one_component graph_revisit) {''x'', ''z''}
        (node_of graph_revisit ''y'')) = None
   \<and> visit (graph_context ''a'' None False one_component graph_revisit) {}
        [(''x'', named_import), (''y'', named_import)]
       = ([\<lparr>node = named_import, messageId = ''cycle'', data_source = ''via z:1''\<rparr>],
          {''x'', ''y'', ''z''})
   \<and> lintFile (graph_context ''a'' None False one_component graph_revisit) {}
        [(''x'', named_import), (''y'', named_import)]
       = ([\<lparr>node = named_import, messageId = ''cycle'', data_source = ''via z:1''\<rparr>], {})"
proof -
  let ?ctx = "graph_context ''a'' None False one_component graph_revisit"
  let ?y = "node_of graph_revisit ''y''"
  have "route_hops ?ctx (unvisited {}) (node_of graph_revisit ''z'') 0"
    by (rule route_hops_closes) (simp_all add: graph_defs route_defs)
  then have fresh: "route_hops ?ctx (unvisited {}) ?y 1"
    unfolding One_nat_def
    by (rule route_hops_hop [where p = "''z''", rotated -1]) (simp_all add: graph_defs route_defs)
  have blocked: "\<forall>k. \<not> route_hops ?ctx (unvisited {''x'', ''z''}) ?y k"
  proof (intro allI notI)
    fix k assume r: "route_hops ?ctx (unvisited {''x'', ''z''}) ?y k"
    then show False
    proof (cases k)
      case 0
      with r show ?thesis by (simp add: graph_defs route_defs)
    next
      case (Suc k')
      from r have "route_hops ?ctx (unvisited {''x'', ''z''}) ?y (Suc k')"
        unfolding Suc .
      then obtain p m' where e: "qualifying_edge ?ctx ?y p"
        "map_of (ExportMap_for ?ctx) p = Some m'"
        "route_hops ?ctx (unvisited {''x'', ''z''}) m' k'"
        by (rule route_hops_SucE)
      from e(1,2) have "m' = node_of graph_revisit ''z''"
        by (auto simp: graph_defs route_defs split: if_splits)
      with e(3) have "unvisited {''x'', ''z''} (node_of graph_revisit ''z'')"
        by (auto dest: route_hops_root)
      then show ?thesis by (simp add: graph_defs route_defs)
    qed
  qed
  have visited: "visit ?ctx {} [(''x'', named_import), (''y'', named_import)]
       = ([\<lparr>node = named_import, messageId = ''cycle'', data_source = ''via z:1''\<rparr>],
          {''x'', ''y'', ''z''})"
    by (simp add: graph_defs rule_defs insert_commute)
  have linted: "lintFile ?ctx {} [(''x'', named_import), (''y'', named_import)]
       = ([\<lparr>node = named_import, messageId = ''cycle'', data_source = ''via z:1''\<rparr>], {})"
    using traversed_lifecycle [of "[]" "{}" ?ctx "''x''" named_import
        "[(''x'', named_import), (''y'', named_import)]" ?y]
      visited
    by (simp add: lintFile_def graph_context_def)
  from traversed_lifecycle [of "[]" "{''x'', ''z''}" ?ctx "''x''" named_import "[]" ?y] blocked
  have "fst (findCycle ?ctx {''x'', ''z''} ?y) = None" by blast
  with fresh blocked visited linted show ?thesis by simp
qed

text \<open>
  C10. An import declaration with no specifiers passes the test for type imports
  (\<^verbatim>\<open>every\<close> over the empty list), so it is skipped whatever the configuration: no
  report, and the traversed set is unchanged.
\<close>

theorem bare_import_skipped:
  "checkSourceValue ctx traversed v (ImportDeclaration kind []) = (None, traversed)"
  by (simp add: checkSourceValue_def)

theorem bare_import_skipped_witness:
  "checkSourceValue (graph_context ''a'' None False one_component graph_ab) {} ''b''
     (ImportDeclaration (Some ''value'') []) = (None, {})
   \<and> fst (checkSourceValue (graph_context ''a'' None False one_component graph_ab) {} ''b''
     named_import) \<noteq> None"
proof -
  have "fst (checkSourceValue (graph_context ''a'' None False one_component graph_ab) {} ''b''
     named_import) \<noteq> None"
    by (simp add: graph_defs rule_defs)
  with bare_import_skipped [of "graph_context ''a'' None False one_component graph_ab" "{}" "''b''"
      "Some ''value''"]
  show ?thesis by simp
qed

end
